theory Spec2Isabelle
  imports
    Main
    "HOL-Library.Word"
    "HOL-Library.AList"
    "HOL-Library.Product_Lexorder"
    "HOL-Library.List_Lexorder"
    "HOL-Library.Multiset"
begin

unbundle bit_operations_syntax

section \<open>The evidence pool of \<^verbatim>\<open>evidence/pool.go\<close>\<close>

text \<open>
  A shallow embedding of the evidence pool. Go's \<^verbatim>\<open>int64\<close> and \<^verbatim>\<open>uint32\<close> are
  machine words (arithmetic wraps, comparisons of \<^verbatim>\<open>int64\<close> are signed). A
  \<^verbatim>\<open>time.Time\<close> is a point on the integer time line, counted in nanoseconds; a
  \<^verbatim>\<open>time.Duration\<close> is an \<^verbatim>\<open>int64\<close> number of nanoseconds, and
  \<^verbatim>\<open>Time.Sub\<close> saturates at the ends of that range as the Go library documents.
\<close>

subsection \<open>Machine integers, time\<close>

type_synonym int64 = "64 word"
type_synonym uint32 = "32 word"
type_synonym bytes = "8 word list"
type_synonym time = int
type_synonym duration = int64

definition maxDuration :: int where
  "maxDuration = 2 ^ 63 - 1"

definition minDuration :: int where
  "minDuration = - (2 ^ 63)"

definition time_Sub :: "time \<Rightarrow> time \<Rightarrow> duration" where
  "time_Sub t u =
     (let d = t - u
      in if d < minDuration then word_of_int minDuration
         else if maxDuration < d then word_of_int maxDuration
         else word_of_int d)"

definition time_Add :: "time \<Rightarrow> duration \<Rightarrow> time" where
  "time_Add t d = t + sint d"

definition time_After :: "time \<Rightarrow> time \<Rightarrow> bool" where
  "time_After t u = (u < t)"

definition Second :: duration where
  "Second = 1000000000"

subsection \<open>Votes, validators, evidence\<close>

record validator =
  Address :: bytes
  VotingPower :: int64

type_synonym validator_set = "validator list"

record vote =
  vote_Height :: int64
  vote_BlockID :: bytes
  vote_ValidatorAddress :: bytes

text \<open>A \<^verbatim>\<open>*types.Vote\<close> is a pointer: \<open>None\<close> is \<^verbatim>\<open>nil\<close>.\<close>

record duplicateVoteSet =
  VoteA :: "vote option"
  VoteB :: "vote option"

text \<open>
  \<^verbatim>\<open>types.Evidence\<close> is an interface; the pool reads \<^verbatim>\<open>Height()\<close>, \<^verbatim>\<open>Time()\<close>
  and \<^verbatim>\<open>Hash()\<close> of an item, and the size of its encoding. The two implementations
  are the variants of \<open>evidence_kind\<close>. A slice that may be \<^verbatim>\<open>nil\<close> is an option.
\<close>

datatype evidence_kind =
    DuplicateVote vote "vote option" validator_set
  | LightClientAttack "validator list option"

record evidence =
  Height :: int64
  Time :: time
  Hash :: bytes
  WireSize :: nat
  kind :: evidence_kind

text \<open>
  Modelled from the spec: \<^verbatim>\<open>types.NewDuplicateVoteEvidence\<close> is not part of the
  sources at hand. The spec describes the result as the two votes with the timestamp and
  the validator set captured at the offending height, identified by the hash of its
  canonical content. The result is a pointer; whether it is \<^verbatim>\<open>nil\<close> for some votes is
  not visible. The parameter \<open>enc\<close> stands for what is not visible: it gives the hash and
  the encoded size, or \<open>None\<close> where the constructor returns \<^verbatim>\<open>nil\<close>. The first vote is
  not \<^verbatim>\<open>nil\<close> where the pool calls the constructor, the second may be.
\<close>

type_synonym dve_codec = "vote \<Rightarrow> vote option \<Rightarrow> time \<Rightarrow> validator_set \<Rightarrow> (bytes \<times> nat) option"

definition NewDuplicateVoteEvidence ::
  "dve_codec \<Rightarrow> vote \<Rightarrow> vote option \<Rightarrow> time \<Rightarrow> validator_set \<Rightarrow> evidence option" where
  "NewDuplicateVoteEvidence enc a b t vals =
     (case enc a b t vals of
        None \<Rightarrow> None
      | Some hn \<Rightarrow>
          Some \<lparr>Height = vote_Height a, Time = t, Hash = fst hn, WireSize = snd hn,
                kind = DuplicateVote a b vals\<rparr>)"

datatype error =
    ErrInvalidEvidence evidence string
  | ErrVerify string
  | ErrStore string
  | ErrUnmarshal
  | ErrFromProto

datatype panic = Panic string

subsection \<open>The ordered key-value store\<close>

text \<open>
  The store (\<^verbatim>\<open>tm-db\<close>) and the key codec (\<^verbatim>\<open>orderedcode\<close>) are external
  libraries; the model follows what the spec says of them. A key is the tuple
  \<open>(prefix, height, hash)\<close>; the codec is order preserving, so iteration is in ascending
  order of the tuple, the two integers compared as signed. The store is a finite map, kept
  as an association list; \<open>db_fail\<close> tells which operations return an error. A batch
  holds the keys to delete and is written as a whole or not at all.
\<close>

type_synonym key = "int64 \<times> int64 \<times> bytes"

text \<open>
  The values a key can hold: an encoded \<^verbatim>\<open>tmproto.Evidence\<close> that converts to an item
  (what \<^verbatim>\<open>addPendingEvidence\<close> writes), an encoded \<^verbatim>\<open>tmproto.Evidence\<close> of some
  size that \<^verbatim>\<open>EvidenceFromProto\<close> refuses, an encoded
  \<^verbatim>\<open>tmproto.LightClientAttackEvidence\<close> (one that converts, with its byzantine
  validators, or one that \<^verbatim>\<open>LightClientAttackEvidenceFromProto\<close> refuses), and an
  encoded \<^verbatim>\<open>Int64Value\<close> (what \<^verbatim>\<open>markEvidenceAsCommitted\<close> writes).
\<close>

datatype lca_pb =
    LightClientAttackPb "validator list option"
  | MalformedLightClientAttackPb

datatype dbvalue =
    EvidenceBytes evidence
  | MalformedEvidenceBytes nat
  | LightClientAttackBytes lca_pb
  | Int64Bytes int64

datatype db_op =
    OpHas key
  | OpGet key
  | OpSet key
  | OpIterate int64
  | OpBatchDelete key
  | OpWriteSync

record db =
  db_data :: "(key \<times> dbvalue) list"
  db_fail :: "db_op \<Rightarrow> bool"

type_synonym batch = "key list"

definition no_fault :: "db_op \<Rightarrow> bool" where
  "no_fault = (\<lambda>_. False)"

definition key_order :: "key \<Rightarrow> int \<times> int \<times> bytes" where
  "key_order k = (case k of (p, h, x) \<Rightarrow> (sint p, sint h, x))"

definition ordered_keys :: "(key \<times> dbvalue) list \<Rightarrow> key list" where
  "ordered_keys al = sort_key key_order (remdups (map fst al))"

definition prefix_entries :: "(key \<times> dbvalue) list \<Rightarrow> int64 \<Rightarrow> (key \<times> dbvalue) list" where
  "prefix_entries al pfx =
     List.map_filter (\<lambda>k. map_option (Pair k) (map_of al k))
       (filter (\<lambda>k. fst k = pfx) (ordered_keys al))"

definition db_Has :: "db \<Rightarrow> key \<Rightarrow> bool \<times> bool" where
  "db_Has d k =
     (if db_fail d (OpHas k) then (False, True)
      else (map_of (db_data d) k \<noteq> None, False))"

definition db_Get :: "db \<Rightarrow> key \<Rightarrow> dbvalue option \<times> bool" where
  "db_Get d k =
     (if db_fail d (OpGet k) then (None, True)
      else (map_of (db_data d) k, False))"

definition db_Set :: "db \<Rightarrow> key \<Rightarrow> dbvalue \<Rightarrow> db \<times> bool" where
  "db_Set d k v =
     (if db_fail d (OpSet k) then (d, True)
      else (d\<lparr>db_data := AList.update k v (db_data d)\<rparr>, False))"

definition IteratePrefix :: "db \<Rightarrow> int64 \<Rightarrow> (key \<times> dbvalue) list option" where
  "IteratePrefix d pfx =
     (if db_fail d (OpIterate pfx) then None
      else Some (prefix_entries (db_data d) pfx))"

definition batch_Delete :: "db \<Rightarrow> batch \<Rightarrow> key \<Rightarrow> batch \<times> bool" where
  "batch_Delete d b k =
     (if db_fail d (OpBatchDelete k) then (b, True) else (b @ [k], False))"

definition delete_keys :: "key list \<Rightarrow> (key \<times> dbvalue) list \<Rightarrow> (key \<times> dbvalue) list" where
  "delete_keys b al = filter (\<lambda>kv. fst kv \<notin> set b) al"

definition batch_WriteSync :: "db \<Rightarrow> batch \<Rightarrow> db \<times> bool" where
  "batch_WriteSync d b =
     (if db_fail d OpWriteSync then (d, True)
      else (d\<lparr>db_data := delete_keys b (db_data d)\<rparr>, False))"

subsection \<open>Keys and codecs\<close>

text \<open>
  The key functions panic when \<^verbatim>\<open>orderedcode.Append\<close> returns an error, which it does
  for operands of a type it does not know; the operands here are two \<^verbatim>\<open>int64\<close> and a
  string, so a key is always built. A key function reads \<^verbatim>\<open>Height()\<close> and
  \<^verbatim>\<open>Hash()\<close> of its argument; the arguments of type \<^verbatim>\<open>types.Evidence\<close> that the
  callers of the pool hand in are values of \<open>evidence\<close>, none of them \<^verbatim>\<open>nil\<close>. The
  pointers that the pool itself dereferences on the way to a key are the votes of the
  consensus buffer and the result of \<^verbatim>\<open>NewDuplicateVoteEvidence\<close>, see
  \<open>processConsensusBuffer_item\<close> below.
\<close>

definition prefixCommitted :: int64 where
  "prefixCommitted = 9"

definition prefixPending :: int64 where
  "prefixPending = 10"

definition keyCommitted :: "evidence \<Rightarrow> key" where
  "keyCommitted ev = (prefixCommitted, Height ev, Hash ev)"

definition keyPending :: "evidence \<Rightarrow> key" where
  "keyPending ev = (prefixPending, Height ev, Hash ev)"

definition evMapKey :: "evidence \<Rightarrow> bytes" where
  "evMapKey ev = Hash ev"

text \<open>
  Modelled from the spec: the generated \<^verbatim>\<open>Unmarshal\<close> and
  \<^verbatim>\<open>types.EvidenceFromProto\<close> are not part of the sources at hand; the spec has the
  encoding of an item followed by its decoding yield the item (P1). Decoding has two steps,
  as in \<^verbatim>\<open>bytesToEv\<close> and \<^verbatim>\<open>listEvidence\<close>: the bytes are unmarshalled into a
  \<^verbatim>\<open>tmproto.Evidence\<close>, which fails on bytes that do not encode one, and the message
  is converted by \<^verbatim>\<open>types.EvidenceFromProto\<close>, which may refuse it.
\<close>

datatype evidence_pb = EvidencePb evidence | MalformedPb nat

definition Evidence_Unmarshal :: "dbvalue \<Rightarrow> evidence_pb option" where
  "Evidence_Unmarshal v =
     (case v of
        EvidenceBytes ev \<Rightarrow> Some (EvidencePb ev)
      | MalformedEvidenceBytes n \<Rightarrow> Some (MalformedPb n)
      | LightClientAttackBytes _ \<Rightarrow> None
      | Int64Bytes _ \<Rightarrow> None)"

definition EvidenceFromProto :: "evidence_pb \<Rightarrow> evidence option" where
  "EvidenceFromProto evpb = (case evpb of EvidencePb ev \<Rightarrow> Some ev | MalformedPb _ \<Rightarrow> None)"

definition bytesToEv :: "dbvalue \<Rightarrow> evidence option" where
  "bytesToEv evBytes =
     (case Evidence_Unmarshal evBytes of
        None \<Rightarrow> None
      | Some evpb \<Rightarrow> EvidenceFromProto evpb)"

text \<open>
  \<^verbatim>\<open>fastCheck\<close> unmarshals the stored bytes as a
  \<^verbatim>\<open>tmproto.LightClientAttackEvidence\<close>, not as the \<^verbatim>\<open>tmproto.Evidence\<close> that
  \<^verbatim>\<open>addPendingEvidence\<close> writes: it fails on what the pool writes. The message is
  converted by \<^verbatim>\<open>types.LightClientAttackEvidenceFromProto\<close>, which may refuse it; of
  the result the pool reads the byzantine validators.
\<close>

definition LightClientAttackEvidence_Unmarshal :: "dbvalue \<Rightarrow> lca_pb option" where
  "LightClientAttackEvidence_Unmarshal v =
     (case v of
        LightClientAttackBytes pb \<Rightarrow> Some pb
      | EvidenceBytes _ \<Rightarrow> None
      | MalformedEvidenceBytes _ \<Rightarrow> None
      | Int64Bytes _ \<Rightarrow> None)"

definition LightClientAttackEvidenceFromProto :: "lca_pb \<Rightarrow> validator list option option" where
  "LightClientAttackEvidenceFromProto pb =
     (case pb of
        LightClientAttackPb byz \<Rightarrow> Some byz
      | MalformedLightClientAttackPb \<Rightarrow> None)"

text \<open>
  Modelled from the spec: \<^verbatim>\<open>tmproto.EvidenceList.Size\<close> is generated code that is
  not part of the sources at hand. The serialized size of the aggregate is the sum of
  what each message contributes to it (for an item \<open>WireSize\<close>: its encoding with its
  framing). \<open>EvidenceList_Size\<close> is the size of the list of the messages of items.
\<close>

definition pb_Size :: "evidence_pb \<Rightarrow> nat" where
  "pb_Size evpb = (case evpb of EvidencePb ev \<Rightarrow> WireSize ev | MalformedPb n \<Rightarrow> n)"

definition tmproto_EvidenceList_Size :: "evidence_pb list \<Rightarrow> int" where
  "tmproto_EvidenceList_Size evList = int (sum_list (map pb_Size evList))"

definition EvidenceList_Size :: "evidence list \<Rightarrow> int" where
  "EvidenceList_Size evs = tmproto_EvidenceList_Size (map EvidencePb evs)"

subsection \<open>The pool\<close>

record evidence_params =
  MaxAgeNumBlocks :: int64
  MaxAgeDuration :: duration

record sm_state =
  LastBlockHeight :: int64
  LastBlockTime :: time
  LastValidators :: validator_set
  ConsensusParams_Evidence :: evidence_params

text \<open>
  \<open>stateDB\<close> stands for \<^verbatim>\<open>sm.Store.LoadValidators\<close> and \<open>blockStore\<close> for the header
  time of \<^verbatim>\<open>BlockStore.LoadBlockMeta\<close>; \<open>None\<close> is the error, respectively \<^verbatim>\<open>nil\<close>.
  The concurrent list is the list of its elements, front first.
\<close>

record pool =
  evidenceStore :: db
  evidenceList :: "evidence list"
  evidenceSize :: uint32
  stateDB :: "int64 \<Rightarrow> validator_set option"
  blockStore :: "int64 \<Rightarrow> time option"
  state :: sm_state
  consensusBuffer :: "duplicateVoteSet list"
  pruningHeight :: int64
  pruningTime :: time

definition Size :: "pool \<Rightarrow> uint32" where
  "Size evpool = evidenceSize evpool"

definition State :: "pool \<Rightarrow> sm_state" where
  "State evpool = state evpool"

definition isExpired :: "pool \<Rightarrow> int64 \<Rightarrow> time \<Rightarrow> bool" where
  "isExpired evpool height t =
     (let params = ConsensusParams_Evidence (State evpool);
          ageDuration = time_Sub (LastBlockTime (State evpool)) t;
          ageNumBlocks = LastBlockHeight (State evpool) - height
      in MaxAgeNumBlocks params <s ageNumBlocks \<and> MaxAgeDuration params <s ageDuration)"

definition isCommitted :: "pool \<Rightarrow> evidence \<Rightarrow> bool" where
  "isCommitted evpool ev = fst (db_Has (evidenceStore evpool) (keyCommitted ev))"

definition isPending :: "pool \<Rightarrow> evidence \<Rightarrow> bool" where
  "isPending evpool ev = fst (db_Has (evidenceStore evpool) (keyPending ev))"

definition addPendingEvidence :: "pool \<Rightarrow> evidence \<Rightarrow> error option \<times> pool" where
  "addPendingEvidence evpool ev =
     (case db_Set (evidenceStore evpool) (keyPending ev) (EvidenceBytes ev) of
        (d, True) \<Rightarrow> (Some (ErrStore ''failed to persist evidence''), evpool)
      | (d, False) \<Rightarrow>
          (None, evpool\<lparr>evidenceStore := d, evidenceSize := evidenceSize evpool + 1\<rparr>))"

definition PushBack :: "pool \<Rightarrow> evidence \<Rightarrow> pool" where
  "PushBack evpool ev = evpool\<lparr>evidenceList := evidenceList evpool @ [ev]\<rparr>"

text \<open>
  \<^verbatim>\<open>verify\<close> lives in a file that is not part of the sources at hand; it reads the
  pool and returns an error or \<^verbatim>\<open>nil\<close>. It is a parameter of its callers.
\<close>

definition AddEvidence ::
  "(pool \<Rightarrow> evidence \<Rightarrow> error option) \<Rightarrow> pool \<Rightarrow> evidence \<Rightarrow> error option \<times> pool" where
  "AddEvidence verify evpool ev =
     (if isPending evpool ev then (None, evpool)
      else if isCommitted evpool ev then (None, evpool)
      else case verify evpool ev of
          Some err \<Rightarrow> (Some err, evpool)
        | None \<Rightarrow>
            (case addPendingEvidence evpool ev of
               (Some err, p) \<Rightarrow> (Some (ErrStore ''failed to add evidence to pending list''), p)
             | (None, p) \<Rightarrow> (None, PushBack p ev)))"

definition ReportConflictingVotes :: "pool \<Rightarrow> vote option \<Rightarrow> vote option \<Rightarrow> pool" where
  "ReportConflictingVotes evpool voteA voteB =
     evpool\<lparr>consensusBuffer := consensusBuffer evpool @ [\<lparr>VoteA = voteA, VoteB = voteB\<rparr>]\<rparr>"

subsection \<open>Listing pending evidence\<close>

text \<open>
  The loop of \<^verbatim>\<open>listEvidence\<close> over the iterator: \<open>evList\<close> is the protobuf list used
  for the size, \<open>evidence\<close> the slice built so far. A \<^verbatim>\<open>nil\<close> slice is the empty list.
\<close>

fun listEvidence_loop ::
  "int64 \<Rightarrow> (key \<times> dbvalue) list \<Rightarrow> evidence_pb list \<Rightarrow> evidence list \<Rightarrow> int \<Rightarrow>
   evidence list \<times> int \<times> error option"
where
  "listEvidence_loop maxBytes [] evList evidence totalSize = (evidence, totalSize, None)"
| "listEvidence_loop maxBytes (kv # it) evList evidence totalSize =
     (case Evidence_Unmarshal (snd kv) of
        None \<Rightarrow> (evidence, totalSize, Some ErrUnmarshal)
      | Some evpb \<Rightarrow>
          (let evSize = tmproto_EvidenceList_Size (evList @ [evpb])
           in if maxBytes \<noteq> - 1 \<and> sint maxBytes < evSize then (evidence, totalSize, None)
              else (case EvidenceFromProto evpb of
                      None \<Rightarrow> ([], totalSize, Some ErrFromProto)
                    | Some ev \<Rightarrow>
                        listEvidence_loop maxBytes it (evList @ [evpb]) (evidence @ [ev]) evSize)))"

definition listEvidence :: "pool \<Rightarrow> int64 \<Rightarrow> int64 \<Rightarrow> evidence list \<times> int \<times> error option" where
  "listEvidence evpool prefixKey maxBytes =
     (case IteratePrefix (evidenceStore evpool) prefixKey of
        None \<Rightarrow> ([], 0, Some (ErrStore ''database error''))
      | Some it \<Rightarrow> listEvidence_loop maxBytes it [] [] 0)"

definition PendingEvidence :: "pool \<Rightarrow> int64 \<Rightarrow> evidence list \<times> int" where
  "PendingEvidence evpool maxBytes =
     (if Size evpool = 0 then ([], 0)
      else case listEvidence evpool prefixPending maxBytes of
        (evidence, sz, err) \<Rightarrow> (evidence, sz))"

subsection \<open>Checking the evidence of a block\<close>

definition slice_of :: "'a list option \<Rightarrow> 'a list" where
  "slice_of s = (case s of None \<Rightarrow> [] | Some xs \<Rightarrow> xs)"

text \<open>
  Modelled from the spec: \<^verbatim>\<open>types.ValidatorsByVotingPower\<close> is not part of the sources
  at hand; the spec has it sort by descending voting power, ties broken by address.
\<close>

definition ValidatorsByVotingPower :: "validator \<Rightarrow> int \<times> bytes" where
  "ValidatorsByVotingPower v = (- sint (VotingPower v), Address v)"

definition fastCheck :: "pool \<Rightarrow> evidence \<Rightarrow> bool" where
  "fastCheck evpool ev =
     (case kind ev of
        LightClientAttack byz \<Rightarrow>
          (case db_Get (evidenceStore evpool) (keyPending ev) of
             (None, err) \<Rightarrow> False
           | (Some evBytes, True) \<Rightarrow> False
           | (Some evBytes, False) \<Rightarrow>
               (case LightClientAttackEvidence_Unmarshal evBytes of
                  None \<Rightarrow> False
                | Some trustedPb \<Rightarrow>
                    (case LightClientAttackEvidenceFromProto trustedPb of
                       None \<Rightarrow> False
                     | Some trustedByz \<Rightarrow>
                         if trustedByz = None \<and> byz \<noteq> None then False
                         else if length (slice_of trustedByz) \<noteq> length (slice_of byz) then False
                         else
                           (let byzValsCopy = sort_key ValidatorsByVotingPower (slice_of byz)
                            in list_all2
                                 (\<lambda>c val. Address c = Address val \<and> VotingPower c = VotingPower val)
                                 byzValsCopy (slice_of trustedByz)))))
      | DuplicateVote _ _ _ \<Rightarrow> isPending evpool ev)"

text \<open>
  One round of the loop of \<^verbatim>\<open>CheckEvidence\<close> up to the duplicate check: the error
  returned, if any, and the pool.
\<close>

definition CheckEvidence_item ::
  "(pool \<Rightarrow> evidence \<Rightarrow> error option) \<Rightarrow> pool \<Rightarrow> evidence \<Rightarrow> error option \<times> pool" where
  "CheckEvidence_item verify evpool ev =
     (if fastCheck evpool ev then (None, evpool)
      else if isCommitted evpool ev
        then (Some (ErrInvalidEvidence ev ''evidence was already committed''), evpool)
      else case verify evpool ev of
          Some err \<Rightarrow> (Some err, evpool)
        | None \<Rightarrow> (None, snd (addPendingEvidence evpool ev)))"

fun CheckEvidence_loop ::
  "(pool \<Rightarrow> evidence \<Rightarrow> error option) \<Rightarrow> pool \<Rightarrow> bytes list \<Rightarrow> evidence list \<Rightarrow>
   error option \<times> pool"
where
  "CheckEvidence_loop verify evpool hashes [] = (None, evpool)"
| "CheckEvidence_loop verify evpool hashes (ev # evList) =
     (case CheckEvidence_item verify evpool ev of
        (Some err, p) \<Rightarrow> (Some err, p)
      | (None, p) \<Rightarrow>
          if Hash ev \<in> set hashes
          then (Some (ErrInvalidEvidence ev ''duplicate evidence''), p)
          else CheckEvidence_loop verify p (hashes @ [Hash ev]) evList)"

definition CheckEvidence ::
  "(pool \<Rightarrow> evidence \<Rightarrow> error option) \<Rightarrow> pool \<Rightarrow> evidence list \<Rightarrow> error option \<times> pool" where
  "CheckEvidence verify evpool evList = CheckEvidence_loop verify evpool [] evList"

subsection \<open>Marking evidence as committed\<close>

definition removeEvidenceFromList :: "pool \<Rightarrow> bytes list \<Rightarrow> pool" where
  "removeEvidenceFromList evpool blockEvidenceMap =
     evpool\<lparr>evidenceList := filter (\<lambda>ev. evMapKey ev \<notin> set blockEvidenceMap) (evidenceList evpool)\<rparr>"

text \<open>
  \<^verbatim>\<open>atomic.AddUint32(&evpool.evidenceSize, ^uint32(n-1))\<close>, where \<open>n\<close> is the length of
  the map, an \<^verbatim>\<open>int\<close>.
\<close>

definition subSize :: "uint32 \<Rightarrow> nat \<Rightarrow> uint32" where
  "subSize sz n = sz + NOT (word_of_int (int n - 1))"

text \<open>
  The loop of \<^verbatim>\<open>markEvidenceAsCommitted\<close>: the batch, the map of hashes (a list
  without repetition) and the pool. The marker is written to the store at once, the
  removal from the pending bucket goes to the batch.
\<close>

fun markEvidenceAsCommitted_loop ::
  "int64 \<Rightarrow> evidence list \<Rightarrow> batch \<Rightarrow> bytes list \<Rightarrow> pool \<Rightarrow> batch \<times> bytes list \<times> pool"
where
  "markEvidenceAsCommitted_loop height [] b m evpool = (b, m, evpool)"
| "markEvidenceAsCommitted_loop height (ev # evs) b m evpool =
     (let b' = (if isPending evpool ev
                then fst (batch_Delete (evidenceStore evpool) b (keyPending ev)) else b);
          m' = (if isPending evpool ev then List.insert (evMapKey ev) m else m);
          d = fst (db_Set (evidenceStore evpool) (keyCommitted ev) (Int64Bytes height))
      in markEvidenceAsCommitted_loop height evs b' m' (evpool\<lparr>evidenceStore := d\<rparr>))"

definition markEvidenceAsCommitted :: "pool \<Rightarrow> evidence list \<Rightarrow> int64 \<Rightarrow> pool" where
  "markEvidenceAsCommitted evpool evs height =
     (case markEvidenceAsCommitted_loop height evs [] [] evpool of
        (b, blockEvidenceMap, p) \<Rightarrow>
          if length blockEvidenceMap = 0 then p
          else (case batch_WriteSync (evidenceStore p) b of
                  (d, True) \<Rightarrow> p
                | (d, False) \<Rightarrow>
                    (let p' = removeEvidenceFromList (p\<lparr>evidenceStore := d\<rparr>) blockEvidenceMap
                     in p'\<lparr>evidenceSize := subSize (evidenceSize p') (length blockEvidenceMap)\<rparr>)))"

subsection \<open>Pruning expired evidence\<close>

fun batchExpiredPendingEvidence_loop ::
  "pool \<Rightarrow> (key \<times> dbvalue) list \<Rightarrow> batch \<Rightarrow> bytes list \<Rightarrow> int64 \<times> time \<times> batch \<times> bytes list"
where
  "batchExpiredPendingEvidence_loop evpool [] b m =
     (LastBlockHeight (State evpool), LastBlockTime (State evpool), b, m)"
| "batchExpiredPendingEvidence_loop evpool (kv # it) b m =
     (case bytesToEv (snd kv) of
        None \<Rightarrow> batchExpiredPendingEvidence_loop evpool it b m
      | Some ev \<Rightarrow>
          if \<not> isExpired evpool (Height ev) (Time ev)
          then (Height ev + MaxAgeNumBlocks (ConsensusParams_Evidence (State evpool)) + 1,
                time_Add (time_Add (Time ev) (MaxAgeDuration (ConsensusParams_Evidence (State evpool))))
                  Second,
                b, m)
          else (case batch_Delete (evidenceStore evpool) b (fst kv) of
                  (b', True) \<Rightarrow> batchExpiredPendingEvidence_loop evpool it b m
                | (b', False) \<Rightarrow>
                    batchExpiredPendingEvidence_loop evpool it b' (List.insert (evMapKey ev) m)))"

definition batchExpiredPendingEvidence ::
  "pool \<Rightarrow> batch \<Rightarrow> int64 \<times> time \<times> batch \<times> bytes list" where
  "batchExpiredPendingEvidence evpool b =
     (case IteratePrefix (evidenceStore evpool) prefixPending of
        None \<Rightarrow> (LastBlockHeight (State evpool), LastBlockTime (State evpool), b, [])
      | Some it \<Rightarrow> batchExpiredPendingEvidence_loop evpool it b [])"

definition removeExpiredPendingEvidence :: "pool \<Rightarrow> (int64 \<times> time) \<times> pool" where
  "removeExpiredPendingEvidence evpool =
     (case batchExpiredPendingEvidence evpool [] of
        (height, t, b, blockEvidenceMap) \<Rightarrow>
          if length blockEvidenceMap = 0 then ((height, t), evpool)
          else (case batch_WriteSync (evidenceStore evpool) b of
                  (d, True) \<Rightarrow>
                    ((LastBlockHeight (State evpool), LastBlockTime (State evpool)), evpool)
                | (d, False) \<Rightarrow>
                    (let p' = removeEvidenceFromList (evpool\<lparr>evidenceStore := d\<rparr>) blockEvidenceMap
                     in ((height, t),
                         p'\<lparr>evidenceSize := subSize (evidenceSize p') (length blockEvidenceMap)\<rparr>))))"

subsection \<open>The consensus buffer\<close>

definition updateState :: "pool \<Rightarrow> sm_state \<Rightarrow> pool" where
  "updateState evpool st = evpool\<lparr>state := st\<rparr>"

text \<open>
  The \<^verbatim>\<open>switch\<close> of \<^verbatim>\<open>processConsensusBuffer\<close> for a pair whose first vote is
  not \<^verbatim>\<open>nil\<close>: \<open>None\<close> where the source logs and goes on to the next pair, otherwise
  the pointer that the constructor returns.
\<close>

definition formDuplicateVoteEvidence ::
  "dve_codec \<Rightarrow> pool \<Rightarrow> sm_state \<Rightarrow> vote \<Rightarrow> vote option \<Rightarrow> evidence option option" where
  "formDuplicateVoteEvidence enc evpool st voteA voteB =
     (if vote_Height voteA = LastBlockHeight st
      then Some (NewDuplicateVoteEvidence enc voteA voteB (LastBlockTime st) (LastValidators st))
      else if vote_Height voteA <s LastBlockHeight st
      then (case stateDB evpool (vote_Height voteA) of
              None \<Rightarrow> None
            | Some valSet \<Rightarrow>
                (case blockStore evpool (vote_Height voteA) of
                   None \<Rightarrow> None
                 | Some blockTime \<Rightarrow>
                     Some (NewDuplicateVoteEvidence enc voteA voteB blockTime valSet)))
      else None)"

text \<open>
  One round of the loop. The source reads \<^verbatim>\<open>voteSet.VoteA.Height\<close> without a check, and
  hands the evidence to \<^verbatim>\<open>isPending\<close>, which reads its height for the key: a
  \<^verbatim>\<open>nil\<close> pointer there is a run-time panic.
\<close>

definition processConsensusBuffer_item ::
  "dve_codec \<Rightarrow> sm_state \<Rightarrow> pool \<Rightarrow> duplicateVoteSet \<Rightarrow> panic + pool" where
  "processConsensusBuffer_item enc st evpool voteSet =
     (case VoteA voteSet of
        None \<Rightarrow> Inl (Panic ''nil pointer dereference'')
      | Some voteA \<Rightarrow>
          (case formDuplicateVoteEvidence enc evpool st voteA (VoteB voteSet) of
             None \<Rightarrow> Inr evpool
           | Some None \<Rightarrow> Inl (Panic ''nil pointer dereference'')
           | Some (Some dve) \<Rightarrow>
               Inr (if isPending evpool dve then evpool
                    else if isCommitted evpool dve then evpool
                    else (case addPendingEvidence evpool dve of
                            (Some err, p) \<Rightarrow> p
                          | (None, p) \<Rightarrow> PushBack p dve))))"

fun processConsensusBuffer_loop ::
  "dve_codec \<Rightarrow> sm_state \<Rightarrow> pool \<Rightarrow> duplicateVoteSet list \<Rightarrow> panic + pool"
where
  "processConsensusBuffer_loop enc st evpool [] = Inr evpool"
| "processConsensusBuffer_loop enc st evpool (voteSet # buf) =
     (case processConsensusBuffer_item enc st evpool voteSet of
        Inl pn \<Rightarrow> Inl pn
      | Inr p \<Rightarrow> processConsensusBuffer_loop enc st p buf)"

definition processConsensusBuffer :: "dve_codec \<Rightarrow> pool \<Rightarrow> sm_state \<Rightarrow> panic + pool" where
  "processConsensusBuffer enc evpool st =
     (case processConsensusBuffer_loop enc st evpool (consensusBuffer evpool) of
        Inl pn \<Rightarrow> Inl pn
      | Inr p \<Rightarrow> Inr (p\<lparr>consensusBuffer := []\<rparr>))"

subsection \<open>Update\<close>

definition Update :: "dve_codec \<Rightarrow> pool \<Rightarrow> sm_state \<Rightarrow> evidence list \<Rightarrow> panic + pool" where
  "Update enc evpool st ev =
     (if LastBlockHeight st \<le>s LastBlockHeight (state evpool)
      then Inl (Panic ''failed EvidencePool.Update new state height is less than or equal to previous state height'')
      else
        (case processConsensusBuffer enc evpool st of
           Inl pn \<Rightarrow> Inl pn
         | Inr p1 \<Rightarrow>
             (let p2 = updateState p1 st;
                  p3 = markEvidenceAsCommitted p2 ev (LastBlockHeight st)
              in if 0 < Size p3 \<and> pruningHeight p3 <s LastBlockHeight st \<and>
                    time_After (LastBlockTime st) (pruningTime p3)
                 then (case removeExpiredPendingEvidence p3 of
                         ((h, t), p4) \<Rightarrow> Inr (p4\<lparr>pruningHeight := h, pruningTime := t\<rparr>))
                 else Inr p3)))"

subsection \<open>Notions used by the properties\<close>

text \<open>
  The two freshness bounds of an item, read on the integers: it is stale by height when
  its height is below \<open>LastBlockHeight - MaxAgeNumBlocks\<close>, stale by time when its time
  is before \<open>LastBlockTime - MaxAgeDuration\<close>.
\<close>

definition height_stale :: "pool \<Rightarrow> int64 \<Rightarrow> bool" where
  "height_stale evpool height =
     (sint height <
        sint (LastBlockHeight (State evpool)) -
        sint (MaxAgeNumBlocks (ConsensusParams_Evidence (State evpool))))"

definition time_stale :: "pool \<Rightarrow> time \<Rightarrow> bool" where
  "time_stale evpool t =
     (t < LastBlockTime (State evpool) -
          sint (MaxAgeDuration (ConsensusParams_Evidence (State evpool))))"

text \<open>
  The entries of the pending bucket in key order, as the iterator yields them, and the
  items they decode to.
\<close>

definition pending_entries :: "pool \<Rightarrow> (key \<times> dbvalue) list" where
  "pending_entries evpool = prefix_entries (db_data (evidenceStore evpool)) prefixPending"

definition decode_entries :: "(key \<times> dbvalue) list \<Rightarrow> evidence list" where
  "decode_entries it = List.map_filter (\<lambda>kv. bytesToEv (snd kv)) it"

definition pending_evidence :: "pool \<Rightarrow> evidence list" where
  "pending_evidence evpool = decode_entries (pending_entries evpool)"

text \<open>
  The evidence that the spec has \<^verbatim>\<open>processConsensusBuffer\<close> form from a pair of votes:
  at the height of the new state, the pair with the time and the validators of that state;
  below it, the pair with the header time and the validator set loaded for the height of
  the votes, when both are found; no evidence above it or when a lookup fails.
\<close>

definition spec_forms ::
  "dve_codec \<Rightarrow> pool \<Rightarrow> sm_state \<Rightarrow> duplicateVoteSet \<Rightarrow> evidence \<Rightarrow> bool" where
  "spec_forms enc evpool st voteSet dve =
     (case VoteA voteSet of
        None \<Rightarrow> False
      | Some voteA \<Rightarrow>
          (vote_Height voteA = LastBlockHeight st \<and>
           Some dve = NewDuplicateVoteEvidence enc voteA (VoteB voteSet)
                        (LastBlockTime st) (LastValidators st)) \<or>
          (vote_Height voteA <s LastBlockHeight st \<and>
           (case (stateDB evpool (vote_Height voteA), blockStore evpool (vote_Height voteA)) of
              (Some valSet, Some blockTime) \<Rightarrow>
                 Some dve = NewDuplicateVoteEvidence enc voteA (VoteB voteSet) blockTime valSet
            | _ \<Rightarrow> False)))"

text \<open>
  The evidence that a round of the loop of \<^verbatim>\<open>processConsensusBuffer\<close> goes on with,
  if any.
\<close>

definition formed :: "dve_codec \<Rightarrow> pool \<Rightarrow> sm_state \<Rightarrow> duplicateVoteSet \<Rightarrow> evidence option" where
  "formed enc evpool st voteSet =
     (case VoteA voteSet of
        None \<Rightarrow> None
      | Some voteA \<Rightarrow>
          (case formDuplicateVoteEvidence enc evpool st voteA (VoteB voteSet) of
             None \<Rightarrow> None
           | Some ptr \<Rightarrow> ptr))"

text \<open>
  A pair of votes at which the loop of \<^verbatim>\<open>processConsensusBuffer\<close> dereferences a
  \<^verbatim>\<open>nil\<close> pointer: its first vote is \<^verbatim>\<open>nil\<close>, or the constructor returns
  \<^verbatim>\<open>nil\<close> for it.
\<close>

definition nil_dereference ::
  "dve_codec \<Rightarrow> pool \<Rightarrow> sm_state \<Rightarrow> duplicateVoteSet \<Rightarrow> bool" where
  "nil_dereference enc evpool st voteSet =
     (case VoteA voteSet of
        None \<Rightarrow> True
      | Some voteA \<Rightarrow> formDuplicateVoteEvidence enc evpool st voteA (VoteB voteSet) = Some None)"

text \<open>
  The invariants of the spec. I1: no hash is the hash of both a pending and a committed
  key. I2: the broadcast list and the pending items agree as multisets. I3: the size
  counter is the number of pending entries.
\<close>

definition committed_entries :: "pool \<Rightarrow> (key \<times> dbvalue) list" where
  "committed_entries evpool = prefix_entries (db_data (evidenceStore evpool)) prefixCommitted"

definition key_hash :: "key \<Rightarrow> bytes" where
  "key_hash k = snd (snd k)"

definition I1 :: "pool \<Rightarrow> bool" where
  "I1 evpool =
     (set (map (key_hash \<circ> fst) (pending_entries evpool)) \<inter>
      set (map (key_hash \<circ> fst) (committed_entries evpool)) = {})"

definition I2 :: "pool \<Rightarrow> bool" where
  "I2 evpool = (mset (evidenceList evpool) = mset (pending_evidence evpool))"

definition I3 :: "pool \<Rightarrow> bool" where
  "I3 evpool = (unat (evidenceSize evpool) = length (pending_entries evpool))"

text \<open>
  A pending bucket is well formed when every value that decodes to an item is stored
  under the key of that item, and no two pending keys have the same hash.
\<close>

definition stored_under_own_key :: "key \<times> dbvalue \<Rightarrow> bool" where
  "stored_under_own_key kv =
     (case bytesToEv (snd kv) of None \<Rightarrow> True | Some ev \<Rightarrow> keyPending ev = fst kv)"

definition pending_well_formed :: "pool \<Rightarrow> bool" where
  "pending_well_formed evpool =
     (list_all stored_under_own_key (pending_entries evpool) \<and>
      distinct (map (key_hash \<circ> fst) (pending_entries evpool)))"

text \<open>
  The hashes that \<^verbatim>\<open>markEvidenceAsCommitted\<close> and
  \<^verbatim>\<open>removeExpiredPendingEvidence\<close> collect in their \<^verbatim>\<open>blockEvidenceMap\<close>.
\<close>

definition marked_hashes :: "pool \<Rightarrow> evidence list \<Rightarrow> int64 \<Rightarrow> bytes list" where
  "marked_hashes evpool evs height =
     fst (snd (markEvidenceAsCommitted_loop height evs [] [] evpool))"

definition expired_hashes :: "pool \<Rightarrow> bytes list" where
  "expired_hashes evpool = snd (snd (snd (batchExpiredPendingEvidence evpool [])))"

text \<open>
  The pool as \<^verbatim>\<open>Update\<close> has it when it comes to pruning: the buffer flushed, the
  state replaced, the evidence of the block marked as committed. An entry of the pending
  bucket is expired when it decodes to an item that \<open>isExpired\<close> holds for.
\<close>

definition reconciled :: "dve_codec \<Rightarrow> pool \<Rightarrow> sm_state \<Rightarrow> evidence list \<Rightarrow> panic + pool" where
  "reconciled enc evpool st ev =
     (case processConsensusBuffer enc evpool st of
        Inl pn \<Rightarrow> Inl pn
      | Inr p1 \<Rightarrow> Inr (markEvidenceAsCommitted (updateState p1 st) ev (LastBlockHeight st)))"

text \<open>The condition of \<^verbatim>\<open>Update\<close> under which the pruning pass runs.\<close>

definition pruning_due :: "pool \<Rightarrow> sm_state \<Rightarrow> bool" where
  "pruning_due evpool st =
     (0 < Size evpool \<and> pruningHeight evpool <s LastBlockHeight st \<and>
      time_After (LastBlockTime st) (pruningTime evpool))"

definition expired_entry :: "pool \<Rightarrow> key \<times> dbvalue \<Rightarrow> bool" where
  "expired_entry evpool kv =
     (case bytesToEv (snd kv) of
        None \<Rightarrow> False
      | Some ev \<Rightarrow> isExpired evpool (Height ev) (Time ev))"

text \<open>
  The block executor calls \<^verbatim>\<open>Update\<close> once per committed block; \<open>Updates\<close> runs it over a
  list of blocks and stops at a panic.
\<close>

fun Updates :: "dve_codec \<Rightarrow> pool \<Rightarrow> (sm_state \<times> evidence list) list \<Rightarrow> panic + pool"
where
  "Updates enc evpool [] = Inr evpool"
| "Updates enc evpool (blk # blks) =
     (case Update enc evpool (fst blk) (snd blk) of
        Inl pn \<Rightarrow> Inl pn
      | Inr p \<Rightarrow> Updates enc p blks)"

subsection \<open>Concrete pools\<close>

text \<open>
  Small pools for the examples: five blocks and ten seconds of maximal age, a store that
  never fails, no historical blocks.
\<close>

definition ex_params :: evidence_params where
  "ex_params = \<lparr>MaxAgeNumBlocks = 5, MaxAgeDuration = 10000000000\<rparr>"

definition ex_state :: "int64 \<Rightarrow> time \<Rightarrow> sm_state" where
  "ex_state h t =
     \<lparr>LastBlockHeight = h, LastBlockTime = t, LastValidators = [],
      ConsensusParams_Evidence = ex_params\<rparr>"

definition ex_vote :: "int64 \<Rightarrow> bytes \<Rightarrow> vote" where
  "ex_vote h b = \<lparr>vote_Height = h, vote_BlockID = b, vote_ValidatorAddress = [1]\<rparr>"

definition ex_evidence :: "int64 \<Rightarrow> time \<Rightarrow> bytes \<Rightarrow> nat \<Rightarrow> evidence" where
  "ex_evidence h t x n =
     \<lparr>Height = h, Time = t, Hash = x, WireSize = n,
      kind = DuplicateVote (ex_vote h [1]) (Some (ex_vote h [2])) []\<rparr>"

definition ex_pool :: "(key \<times> dbvalue) list \<Rightarrow> evidence list \<Rightarrow> sm_state \<Rightarrow> pool" where
  "ex_pool al evs st =
     \<lparr>evidenceStore = \<lparr>db_data = al, db_fail = no_fault\<rparr>,
      evidenceList = evs, evidenceSize = word_of_nat (length evs),
      stateDB = (\<lambda>_. None), blockStore = (\<lambda>_. None),
      state = st, consensusBuffer = [],
      pruningHeight = 0, pruningTime = 0\<rparr>"

text \<open>Three pending items of sizes 300, 400 and 500, written to the store out of order.\<close>

definition ex_three :: pool where
  "ex_three =
     ex_pool
       [(keyPending (ex_evidence 7 0 [3] 500), EvidenceBytes (ex_evidence 7 0 [3] 500)),
        (keyPending (ex_evidence 5 0 [1] 300), EvidenceBytes (ex_evidence 5 0 [1] 300)),
        (keyPending (ex_evidence 6 0 [2] 400), EvidenceBytes (ex_evidence 6 0 [2] 400))]
       [ex_evidence 7 0 [3] 500, ex_evidence 5 0 [1] 300, ex_evidence 6 0 [2] 400]
       (ex_state 8 0)"

text \<open>
  A pool at height 12 whose stores know the validator set and the header time of height 8.
\<close>

definition ex_validators :: validator_set where
  "ex_validators = [\<lparr>Address = [1], VotingPower = 10\<rparr>]"

definition ex_enc :: dve_codec where
  "ex_enc a b t vals =
     (case b of None \<Rightarrow> None | Some b' \<Rightarrow> Some (vote_BlockID a @ vote_BlockID b', 100))"

definition ex_hist_pool :: pool where
  "ex_hist_pool =
     (ex_pool [] [] (ex_state 12 12000000000))
       \<lparr>stateDB := (\<lambda>h. if h = 8 then Some ex_validators else None),
        blockStore := (\<lambda>h. if h = 8 then Some 8000000000 else None)\<rparr>"

text \<open>
  A pool at height 20 and time 20 s with one pending item of height 5 and time 0, which is
  expired, and the same pool with a store that fails every batch write.
\<close>

definition ex_stale :: pool where
  "ex_stale =
     ex_pool [(keyPending (ex_evidence 5 0 [1] 10), EvidenceBytes (ex_evidence 5 0 [1] 10))]
       [ex_evidence 5 0 [1] 10] (ex_state 20 20000000000)"

definition ex_writesync_fails :: pool where
  "ex_writesync_fails =
     ex_stale\<lparr>evidenceStore := (evidenceStore ex_stale)\<lparr>db_fail := (\<lambda>op. op = OpWriteSync)\<rparr>\<rparr>"

text \<open>The pool \<open>ex_stale\<close> with a store that fails every \<^verbatim>\<open>Set\<close> and every iteration.\<close>

definition ex_set_fails :: pool where
  "ex_set_fails =
     ex_stale\<lparr>evidenceStore :=
       (evidenceStore ex_stale)
         \<lparr>db_fail := (\<lambda>op. case op of OpSet k \<Rightarrow> True | OpIterate pfx \<Rightarrow> True | _ \<Rightarrow> False)\<rparr>\<rparr>"

text \<open>The pool \<open>ex_stale\<close> with the size counter at 0.\<close>

definition ex_undercounted :: pool where
  "ex_undercounted = ex_stale\<lparr>evidenceSize := 0\<rparr>"

text \<open>
  One pending item of height 94 and time 0 in a pool at height 98, and one of height 5 and
  time 0 in a pool at height 10; the pruning cursor is at its initial value.
\<close>

definition ex_expiring :: pool where
  "ex_expiring =
     ex_pool [(keyPending (ex_evidence 94 0 [1] 10), EvidenceBytes (ex_evidence 94 0 [1] 10))]
       [ex_evidence 94 0 [1] 10] (ex_state 98 5000000000)"

definition ex_expired :: pool where
  "ex_expired =
     ex_pool [(keyPending (ex_evidence 5 0 [1] 10), EvidenceBytes (ex_evidence 5 0 [1] 10))]
       [ex_evidence 5 0 [1] 10] (ex_state 10 5000000000)"

text \<open>
  The pool \<open>ex_expiring\<close> after the \<open>Update\<close> at height 99 and time 6 s: the pruning cursor
  is at height 100 and time 11 s.
\<close>

definition ex_waiting :: pool where
  "ex_waiting =
     ex_expiring\<lparr>state := ex_state 99 6000000000,
                 pruningHeight := 100, pruningTime := 11000000000\<rparr>"

section \<open>Properties\<close>

subsection \<open>Arithmetic of the size counter\<close>

lemma subSize_eq: "1 \<le> n \<Longrightarrow> subSize sz n = sz - word_of_nat n"
  by (simp add: subSize_def not_eq_complement)

lemma unat_subSize_wrap:
  assumes "1 \<le> n" "unat sz < n" "n \<le> 2 ^ 32"
  shows "unat (subSize sz n) = 2 ^ 32 + unat sz - n"
proof -
  have eq: "subSize sz n = sz - word_of_nat n"
    using assms(1) by (simp add: subSize_eq)
  have u: "uint (word_of_nat n :: uint32) = int n mod 2 ^ 32"
    by (simp add: uint_nat unat_of_nat zmod_int)
  have n: "int n \<le> 4294967296" using assms(3) by simp
  have lt: "uint sz < int n"
    unfolding uint_nat using assms(2) by (simp only: of_nat_less_iff)
  have ge: "0 \<le> uint sz" by simp
  have "uint (sz - word_of_nat n :: uint32) =
        (uint sz - uint (word_of_nat n :: uint32)) mod 2 ^ 32"
    by (simp add: uint_word_ariths)
  also have "\<dots> = (uint sz - int n) mod 2 ^ 32"
    unfolding u by (rule mod_diff_right_eq)
  also have "\<dots> = (uint sz - int n + 4294967296) mod 4294967296"
    by simp
  also have "\<dots> = uint sz - int n + 4294967296"
    using n lt ge by (intro mod_pos_pos_trivial) linarith+
  finally have "uint (subSize sz n) = uint sz - int n + 4294967296"
    using eq by simp
  then have "int (unat (subSize sz n)) = int (4294967296 + unat sz - n)"
    using assms(2,3) by simp
  then have "unat (subSize sz n) = 4294967296 + unat sz - n"
    by (rule of_nat_eq_iff [THEN iffD1])
  then show ?thesis by simp
qed

lemma unat_subSize_le:
  assumes "1 \<le> n" "n \<le> unat sz"
  shows "unat (subSize sz n) = unat sz - n"
proof -
  have lt: "n < 2 ^ 32"
    using assms(2) unsigned_less [of sz, where 'a = nat] by simp
  have u: "unat (word_of_nat n :: uint32) = n"
    using lt by (simp add: unat_of_nat)
  have "(word_of_nat n :: uint32) \<le> sz"
    using assms(2) u by (simp add: word_le_nat_alt)
  then have "unat (sz - word_of_nat n) = unat sz - unat (word_of_nat n :: uint32)"
    by (rule unat_sub)
  then show ?thesis
    using assms(1) u by (simp add: subSize_eq)
qed

subsection \<open>Expiry\<close>

lemma sint_sub_nonneg:
  fixes a b :: int64
  assumes "0 \<le>s a" "0 \<le>s b"
  shows "sint (a - b) = sint a - sint b"
proof -
  have a: "0 \<le> sint a" "sint a < 2 ^ 63"
    using assms(1) sint_lt [of a] by (simp_all add: word_sle_eq)
  have b: "0 \<le> sint b" "sint b < 2 ^ 63"
    using assms(2) sint_lt [of b] by (simp_all add: word_sle_eq)
  have "sint (a - b) = signed_take_bit 63 (sint a - sint b)"
    by (simp add: sint_word_ariths)
  also have "\<dots> = sint a - sint b"
    using a b by (intro signed_take_bit_int_eq_self) simp_all
  finally show ?thesis .
qed

lemma sint_word_of_int_in_range:
  "- (2 ^ 63) \<le> d \<Longrightarrow> d < 2 ^ 63 \<Longrightarrow> sint (word_of_int d :: int64) = d"
  by (simp add: sint_sbintrunc' signed_take_bit_int_eq_self)

lemma sint_clamp:
  "sint (if d < minDuration then word_of_int minDuration
         else if maxDuration < d then word_of_int maxDuration
         else word_of_int d :: int64) = max minDuration (min maxDuration d)"
  by (simp add: minDuration_def maxDuration_def sint_word_of_int_in_range)

lemma sint_time_Sub:
  "sint (time_Sub t u) = max minDuration (min maxDuration (t - u))"
  unfolding time_Sub_def Let_def by (rule sint_clamp)

lemma time_expired_iff:
  assumes "sint m < maxDuration"
  shows "m <s time_Sub lbt t \<longleftrightarrow> t < lbt - sint m"
proof -
  have "minDuration \<le> sint m"
    using sint_ge [of m] by (simp add: minDuration_def)
  then show ?thesis
    using assms by (auto simp: word_sless_alt sint_time_Sub)
qed

lemma height_expired_iff:
  fixes h lbh m :: int64
  assumes "0 \<le>s h" "0 \<le>s lbh"
  shows "m <s lbh - h \<longleftrightarrow> sint h < sint lbh - sint m"
  using sint_sub_nonneg [OF assms(2) assms(1)] by (auto simp: word_sless_alt)

text \<open>
  C1 (as amended). For heights that are not negative and a maximal age below the largest
  duration, \<open>isExpired\<close> holds exactly when BOTH freshness bounds are violated: the height
  is below \<open>LastBlockHeight - MaxAgeNumBlocks\<close> and the time is before
  \<open>LastBlockTime - MaxAgeDuration\<close>. An item that violates one bound only is not expired.
\<close>

theorem isExpired_iff_both_stale:
  assumes "0 \<le>s height" and "0 \<le>s LastBlockHeight (State evpool)"
    and "sint (MaxAgeDuration (ConsensusParams_Evidence (State evpool))) < maxDuration"
  shows "isExpired evpool height t \<longleftrightarrow> height_stale evpool height \<and> time_stale evpool t"
  unfolding isExpired_def Let_def height_stale_def time_stale_def
  using height_expired_iff [OF assms(1) assms(2)] time_expired_iff [OF assms(3)]
  by simp

theorem isExpired_iff_both_stale_witness:
  "isExpired (ex_pool [] [] (ex_state 100 1000000000000)) 50 900000000000 \<and>
   height_stale (ex_pool [] [] (ex_state 100 1000000000000)) 50 \<and>
   time_stale (ex_pool [] [] (ex_state 100 1000000000000)) 900000000000"
  using isExpired_iff_both_stale
    [of 50 "ex_pool [] [] (ex_state 100 1000000000000)" 900000000000]
  by (simp add: height_stale_def time_stale_def State_def ex_pool_def ex_state_def
      ex_params_def maxDuration_def word_sle_eq)

text \<open>
  The claim as stated has \<open>isExpired\<close> hold as soon as one bound is violated. At height
  100 and time 1000 s, an item of height 50 and time 995 s is stale by height and not by
  time, and is not expired.
\<close>

theorem isExpired_one_bound_counterexample:
  "\<not> (isExpired (ex_pool [] [] (ex_state 100 1000000000000)) 50 995000000000 \<longleftrightarrow>
      height_stale (ex_pool [] [] (ex_state 100 1000000000000)) 50 \<or>
      time_stale (ex_pool [] [] (ex_state 100 1000000000000)) 995000000000)"
  by (simp add: isExpired_def height_stale_def time_stale_def State_def ex_pool_def
      ex_state_def ex_params_def time_Sub_def minDuration_def maxDuration_def)

subsection \<open>Store lemmas\<close>

lemma map_of_delete_keys:
  "map_of (delete_keys b al) k = (if k \<in> set b then None else map_of al k)"
  unfolding delete_keys_def by (induction al) auto

lemma keyPending_neq_keyCommitted [simp]:
  "keyPending a \<noteq> keyCommitted b" "keyCommitted b \<noteq> keyPending a"
  by (simp_all add: keyPending_def keyCommitted_def prefixPending_def prefixCommitted_def)

lemma isPending_no_fault:
  "db_fail (evidenceStore evpool) = no_fault \<Longrightarrow>
   isPending evpool ev \<longleftrightarrow> map_of (db_data (evidenceStore evpool)) (keyPending ev) \<noteq> None"
  by (simp add: isPending_def db_Has_def no_fault_def)

lemma isCommitted_no_fault:
  "db_fail (evidenceStore evpool) = no_fault \<Longrightarrow>
   isCommitted evpool ev \<longleftrightarrow> map_of (db_data (evidenceStore evpool)) (keyCommitted ev) \<noteq> None"
  by (simp add: isCommitted_def db_Has_def no_fault_def)

lemma addPendingEvidence_no_fault:
  "db_fail (evidenceStore evpool) = no_fault \<Longrightarrow>
   addPendingEvidence evpool ev =
     (None, evpool\<lparr>evidenceStore :=
                     (evidenceStore evpool)\<lparr>db_data :=
                        AList.update (keyPending ev) (EvidenceBytes ev)
                          (db_data (evidenceStore evpool))\<rparr>,
                   evidenceSize := evidenceSize evpool + 1\<rparr>)"
  by (simp add: addPendingEvidence_def db_Set_def no_fault_def)

lemma addPendingEvidence_keeps:
  assumes "addPendingEvidence evpool ev = (r, p)"
  shows "db_fail (evidenceStore p) = db_fail (evidenceStore evpool)"
    and "map_of (db_data (evidenceStore evpool)) k \<noteq> None \<Longrightarrow>
         map_of (db_data (evidenceStore p)) k \<noteq> None"
    and "evidenceSize p = evidenceSize evpool \<or> evidenceSize p = evidenceSize evpool + 1"
  using assms
  by (auto simp: addPendingEvidence_def db_Set_def update_conv' split: if_splits)

lemma unat_add_small:
  fixes sz :: uint32
  assumes "unat sz + j < 2 ^ 32"
  shows "unat (sz + word_of_nat j) = unat sz + j"
proof -
  have j: "unat (word_of_nat j :: uint32) = j"
    using assms by (simp add: unat_of_nat)
  then have "unat sz + unat (word_of_nat j :: uint32) < 2 ^ LENGTH(32)"
    using assms by simp
  then have "unat (sz + word_of_nat j) = unat sz + unat (word_of_nat j :: uint32)"
    by (rule unat_add_lem [THEN iffD1])
  then show ?thesis using j by simp
qed

lemma map_fst_prefix_entries:
  "map fst (prefix_entries al pfx) =
     filter (\<lambda>k. map_of al k \<noteq> None) (filter (\<lambda>k. fst k = pfx) (ordered_keys al))"
proof -
  have "map fst (List.map_filter (\<lambda>k. map_option (Pair k) (map_of al k)) ks) =
        filter (\<lambda>k. map_of al k \<noteq> None) ks" for ks
    by (induction ks) (auto simp: map_filter_simps split: option.splits)
  then show ?thesis by (simp add: prefix_entries_def)
qed

lemma sorted_prefix_entries:
  "sorted (map key_order (map fst (prefix_entries al pfx)))"
  unfolding map_fst_prefix_entries ordered_keys_def
  by (intro sorted_filter) (rule sorted_sort_key)

lemma distinct_prefix_entries:
  "distinct (map fst (prefix_entries al pfx))"
  unfolding map_fst_prefix_entries ordered_keys_def
  by (intro distinct_filter) simp

lemma filter_keys_update:
  "\<not> P k \<Longrightarrow> filter P (map fst (AList.update k v al)) = filter P (map fst al)"
  by (induction al) auto

lemma prefix_entries_update_other:
  assumes "fst k \<noteq> pfx"
  shows "prefix_entries (AList.update k v al) pfx = prefix_entries al pfx"
proof -
  let ?P = "\<lambda>k. fst k = pfx"
  have keys: "filter ?P (ordered_keys (AList.update k v al)) = filter ?P (ordered_keys al)"
    using assms
    by (simp add: ordered_keys_def filter_sort remdups_filter [symmetric] filter_keys_update)
  have "List.map_filter (\<lambda>k'. map_option (Pair k') (map_of (AList.update k v al) k')) ks =
        List.map_filter (\<lambda>k'. map_option (Pair k') (map_of al k')) ks"
    if "\<forall>k'\<in>set ks. fst k' = pfx" for ks
    using that assms
    by (induction ks) (auto simp: map_filter_simps update_conv' split: option.splits)
  then show ?thesis
    by (simp add: prefix_entries_def keys)
qed

lemma insert_not_Nil: "List.insert x m \<noteq> []"
  by (cases "x \<in> set m") (auto simp: List.insert_def)

lemma set_ordered_keys: "set (ordered_keys al) = fst ` set al"
  by (simp add: ordered_keys_def)

lemma prefix_entries_mem:
  "(k, v) \<in> set (prefix_entries al pfx) \<longleftrightarrow> fst k = pfx \<and> map_of al k = Some v"
proof -
  have "(k, v) \<in> set (List.map_filter (\<lambda>k. map_option (Pair k) (map_of al k)) ks) \<longleftrightarrow>
        k \<in> set ks \<and> map_of al k = Some v" for ks
    by (induction ks) (auto simp: map_filter_simps split: option.splits)
  moreover have "k \<in> fst ` set al" if "map_of al k = Some v"
    using that by (metis map_of_SomeD fst_conv image_eqI)
  ultimately show ?thesis
    by (auto simp: prefix_entries_def set_ordered_keys)
qed

lemma ordered_keys_delete_keys:
  "ordered_keys (delete_keys b al) = filter (\<lambda>k. k \<notin> set b) (ordered_keys al)"
proof -
  have "map fst (delete_keys b al) = filter (\<lambda>k. k \<notin> set b) (map fst al)"
    unfolding delete_keys_def by (induction al) auto
  then show ?thesis
    by (simp add: ordered_keys_def filter_sort remdups_filter)
qed

lemma prefix_entries_delete_keys:
  "prefix_entries (delete_keys b al) pfx =
     filter (\<lambda>kv. fst kv \<notin> set b) (prefix_entries al pfx)"
proof -
  have h: "List.map_filter (\<lambda>k. map_option (Pair k) (map_of (delete_keys b al) k))
          (filter (\<lambda>k. k \<notin> set b) ks) =
        filter (\<lambda>kv. fst kv \<notin> set b)
          (List.map_filter (\<lambda>k. map_option (Pair k) (map_of al k)) ks)" for ks
    by (induction ks) (auto simp: map_filter_simps map_of_delete_keys split: option.splits)
  have comm: "filter (\<lambda>k. fst k = pfx) (filter (\<lambda>k. k \<notin> set b) ks) =
        filter (\<lambda>k. k \<notin> set b) (filter (\<lambda>k. fst k = pfx) ks)" for ks :: "key list"
    by (induction ks) auto
  show ?thesis
    unfolding prefix_entries_def ordered_keys_delete_keys comm by (rule h)
qed

lemmas pool_eval =
  Update_def processConsensusBuffer_def updateState_def markEvidenceAsCommitted_def
  removeExpiredPendingEvidence_def batchExpiredPendingEvidence_def IteratePrefix_def
  prefix_entries_def ordered_keys_def key_order_def map_filter_simps bytesToEv_def
  Evidence_Unmarshal_def EvidenceFromProto_def
  isExpired_def State_def Size_def time_Sub_def time_After_def time_Add_def Second_def
  minDuration_def maxDuration_def batch_Delete_def batch_WriteSync_def delete_keys_def
  removeEvidenceFromList_def evMapKey_def subSize_def keyPending_def keyCommitted_def
  prefixPending_def prefixCommitted_def no_fault_def ex_pool_def ex_state_def ex_params_def
  word_sless_alt word_sle_eq Let_def PendingEvidence_def listEvidence_def isPending_def
  db_Has_def db_Set_def EvidenceList_Size_def tmproto_EvidenceList_Size_def pb_Size_def
  ex_evidence_def ex_stale_def

subsection \<open>Marking one item as committed\<close>

text \<open>
  C6. With a store that performs its operations, after
  \<open>markEvidenceAsCommitted [ev] h\<close> the item \<open>ev\<close> is not pending and is committed, so it
  is not in both sets.
\<close>

theorem markEvidenceAsCommitted_single:
  assumes nf: "db_fail (evidenceStore evpool) = no_fault"
  shows "\<not> isPending (markEvidenceAsCommitted evpool [ev] h) ev \<and>
         isCommitted (markEvidenceAsCommitted evpool [ev] h) ev"
proof (cases "isPending evpool ev")
  case True
  then show ?thesis
    using nf
    by (simp add: markEvidenceAsCommitted_def Let_def db_Set_def batch_Delete_def
        batch_WriteSync_def no_fault_def removeEvidenceFromList_def isPending_def
        isCommitted_def db_Has_def update_conv' map_of_delete_keys)
next
  case False
  then show ?thesis
    using nf
    by (simp add: markEvidenceAsCommitted_def Let_def db_Set_def no_fault_def
        isPending_def isCommitted_def db_Has_def update_conv')
qed

theorem markEvidenceAsCommitted_single_witness:
  "isPending
     (ex_pool [(keyPending (ex_evidence 7 0 [1] 10), EvidenceBytes (ex_evidence 7 0 [1] 10))]
        [ex_evidence 7 0 [1] 10] (ex_state 8 0))
     (ex_evidence 7 0 [1] 10) \<and>
   \<not> isPending
     (markEvidenceAsCommitted
        (ex_pool [(keyPending (ex_evidence 7 0 [1] 10), EvidenceBytes (ex_evidence 7 0 [1] 10))]
           [ex_evidence 7 0 [1] 10] (ex_state 8 0))
        [ex_evidence 7 0 [1] 10] 9)
     (ex_evidence 7 0 [1] 10) \<and>
   isCommitted
     (markEvidenceAsCommitted
        (ex_pool [(keyPending (ex_evidence 7 0 [1] 10), EvidenceBytes (ex_evidence 7 0 [1] 10))]
           [ex_evidence 7 0 [1] 10] (ex_state 8 0))
        [ex_evidence 7 0 [1] 10] 9)
     (ex_evidence 7 0 [1] 10)"
  using markEvidenceAsCommitted_single
    [of "ex_pool [(keyPending (ex_evidence 7 0 [1] 10), EvidenceBytes (ex_evidence 7 0 [1] 10))]
           [ex_evidence 7 0 [1] 10] (ex_state 8 0)"
        "ex_evidence 7 0 [1] 10" 9]
  by (simp add: ex_pool_def isPending_def db_Has_def no_fault_def)

subsection \<open>Adding the same item twice\<close>

text \<open>
  C8. With a store that performs its operations, a second \<open>AddEvidence ev\<close> leaves the
  pool, and so \<open>Size\<close>, as the first call left it, and it returns no error when the first
  call returned none. For an item that is already pending or already committed the call
  returns no error and changes nothing; for an item that is new and that \<open>verify\<close>
  accepts, the first call adds one to \<open>Size\<close>, and the item is pending afterwards.
\<close>

theorem AddEvidence_twice:
  assumes nf: "db_fail (evidenceStore evpool) = no_fault"
  shows "snd (AddEvidence verify (snd (AddEvidence verify evpool ev)) ev) =
           snd (AddEvidence verify evpool ev) \<and>
         Size (snd (AddEvidence verify (snd (AddEvidence verify evpool ev)) ev)) =
           Size (snd (AddEvidence verify evpool ev)) \<and>
         (fst (AddEvidence verify evpool ev) = None \<longrightarrow>
            fst (AddEvidence verify (snd (AddEvidence verify evpool ev)) ev) = None) \<and>
         (isPending evpool ev \<or> isCommitted evpool ev \<longrightarrow>
            AddEvidence verify evpool ev = (None, evpool)) \<and>
         (\<not> isPending evpool ev \<and> \<not> isCommitted evpool ev \<and> verify evpool ev = None \<longrightarrow>
            fst (AddEvidence verify evpool ev) = None \<and>
            isPending (snd (AddEvidence verify evpool ev)) ev \<and>
            Size (snd (AddEvidence verify evpool ev)) = Size evpool + 1)"
proof -
  consider (pending) "isPending evpool ev"
    | (committed) "\<not> isPending evpool ev" "isCommitted evpool ev"
    | (invalid) err where "\<not> isPending evpool ev" "\<not> isCommitted evpool ev"
        "verify evpool ev = Some err"
    | (added) "\<not> isPending evpool ev" "\<not> isCommitted evpool ev" "verify evpool ev = None"
    by (cases "verify evpool ev") auto
  then show ?thesis
  proof cases
    case pending
    then show ?thesis by (simp add: AddEvidence_def)
  next
    case committed
    then show ?thesis by (simp add: AddEvidence_def)
  next
    case invalid
    then show ?thesis by (simp add: AddEvidence_def)
  next
    case added
    let ?p = "snd (AddEvidence verify evpool ev)"
    have first: "AddEvidence verify evpool ev =
        (None, PushBack (snd (addPendingEvidence evpool ev)) ev)"
      using added nf by (simp add: AddEvidence_def addPendingEvidence_no_fault)
    have pend: "isPending ?p ev"
      using nf
      by (simp add: first addPendingEvidence_no_fault PushBack_def isPending_def db_Has_def
          no_fault_def update_conv')
    have sz: "Size ?p = Size evpool + 1"
      using nf by (simp add: first addPendingEvidence_no_fault PushBack_def Size_def)
    have "AddEvidence verify ?p ev = (None, ?p)"
      using pend by (simp add: AddEvidence_def)
    then show ?thesis using added pend sz by (simp add: first)
  qed
qed

theorem AddEvidence_twice_witness:
  "fst (AddEvidence (\<lambda>_ _. None) (ex_pool [] [] (ex_state 8 0)) (ex_evidence 7 0 [1] 10)) = None \<and>
   fst (AddEvidence (\<lambda>_ _. None)
         (snd (AddEvidence (\<lambda>_ _. None) (ex_pool [] [] (ex_state 8 0)) (ex_evidence 7 0 [1] 10)))
         (ex_evidence 7 0 [1] 10)) = None \<and>
   Size (snd (AddEvidence (\<lambda>_ _. None)
         (snd (AddEvidence (\<lambda>_ _. None) (ex_pool [] [] (ex_state 8 0)) (ex_evidence 7 0 [1] 10)))
         (ex_evidence 7 0 [1] 10))) = 1 \<and>
   Size (ex_pool [] [] (ex_state 8 0)) = 0"
  using AddEvidence_twice [of "ex_pool [] [] (ex_state 8 0)" "\<lambda>_ _. None" "ex_evidence 7 0 [1] 10"]
  by (simp add: ex_pool_def AddEvidence_def isPending_def isCommitted_def db_Has_def
      no_fault_def addPendingEvidence_def db_Set_def PushBack_def Size_def)


subsection \<open>Checking the evidence of a block is not atomic\<close>

lemma fastCheck_not_pending:
  assumes "db_fail (evidenceStore evpool) = no_fault" "\<not> isPending evpool ev"
  shows "\<not> fastCheck evpool ev"
  using assms
  by (auto simp: fastCheck_def isPending_def db_Has_def db_Get_def no_fault_def
      split: evidence_kind.splits)

lemma CheckEvidence_item_keeps:
  assumes "CheckEvidence_item verify evpool ev = (r, p)"
  shows "db_fail (evidenceStore p) = db_fail (evidenceStore evpool)"
    and "map_of (db_data (evidenceStore evpool)) k \<noteq> None \<Longrightarrow>
         map_of (db_data (evidenceStore p)) k \<noteq> None"
    and "\<exists>j\<le>1. evidenceSize p = evidenceSize evpool + word_of_nat j"
proof -
  obtain r' p' where a: "addPendingEvidence evpool ev = (r', p')"
    by (cases "addPendingEvidence evpool ev")
  have "p = evpool \<or> p = p'"
    using assms a by (auto simp: CheckEvidence_item_def split: if_splits option.splits)
  then show "db_fail (evidenceStore p) = db_fail (evidenceStore evpool)"
    using addPendingEvidence_keeps(1) [OF a] by auto
  show "map_of (db_data (evidenceStore p)) k \<noteq> None"
    if "map_of (db_data (evidenceStore evpool)) k \<noteq> None"
    using \<open>p = evpool \<or> p = p'\<close> addPendingEvidence_keeps(2) [OF a that] that by auto
  show "\<exists>j\<le>1. evidenceSize p = evidenceSize evpool + word_of_nat j"
  proof -
    have "evidenceSize p = evidenceSize evpool + word_of_nat 0 \<or>
          evidenceSize p = evidenceSize evpool + word_of_nat 1"
      using \<open>p = evpool \<or> p = p'\<close> addPendingEvidence_keeps(3) [OF a] by auto
    then show ?thesis by (auto intro: exI [of _ 0] exI [of _ 1])
  qed
qed

lemma CheckEvidence_loop_keeps:
  assumes "CheckEvidence_loop verify evpool hashes evList = (r, p)"
  shows "db_fail (evidenceStore p) = db_fail (evidenceStore evpool) \<and>
         (map_of (db_data (evidenceStore evpool)) k \<noteq> None \<longrightarrow>
            map_of (db_data (evidenceStore p)) k \<noteq> None) \<and>
         (\<exists>j\<le>length evList. evidenceSize p = evidenceSize evpool + word_of_nat j)"
  using assms
proof (induction evList arbitrary: evpool hashes)
  case Nil
  then show ?case by simp
next
  case (Cons ev evList)
  obtain r1 p1 where item: "CheckEvidence_item verify evpool ev = (r1, p1)"
    by (cases "CheckEvidence_item verify evpool ev")
  note k = CheckEvidence_item_keeps [OF item]
  from k(3) obtain j1 where
    j1: "j1 \<le> 1" "evidenceSize p1 = evidenceSize evpool + word_of_nat j1"
    by blast
  show ?case
  proof (cases "r1 = None \<and> Hash ev \<notin> set hashes")
    case False
    then have "p = p1"
      using Cons.prems item by (auto split: option.splits if_splits)
    have "j1 \<le> length (ev # evList)" using j1(1) by simp
    then have "\<exists>j\<le>length (ev # evList). evidenceSize p = evidenceSize evpool + word_of_nat j"
      using j1(2) \<open>p = p1\<close> by blast
    then show ?thesis using k(1) k(2) \<open>p = p1\<close> by simp
  next
    case True
    then have rec: "CheckEvidence_loop verify p1 (hashes @ [Hash ev]) evList = (r, p)"
      using Cons.prems item by simp
    from Cons.IH [OF rec] obtain j where
      ih: "db_fail (evidenceStore p) = db_fail (evidenceStore p1)"
        "map_of (db_data (evidenceStore p1)) k \<noteq> None \<longrightarrow>
           map_of (db_data (evidenceStore p)) k \<noteq> None"
        "j \<le> length evList" "evidenceSize p = evidenceSize p1 + word_of_nat j"
      by blast
    have "evidenceSize p = evidenceSize evpool + word_of_nat (j1 + j)"
      using ih(4) j1(2) by simp
    moreover have "j1 + j \<le> length (ev # evList)"
      using j1(1) ih(3) by simp
    ultimately have
      "\<exists>j\<le>length (ev # evList). evidenceSize p = evidenceSize evpool + word_of_nat j"
      by blast
    then show ?thesis
      using ih(1) ih(2) k(1) k(2) by simp
  qed
qed

lemma CheckEvidence_loop_duplicate:
  assumes "distinct hashes" "\<not> distinct (hashes @ map Hash evList)"
  shows "fst (CheckEvidence_loop verify evpool hashes evList) \<noteq> None"
  using assms
proof (induction evList arbitrary: evpool hashes)
  case Nil
  then show ?case by simp
next
  case (Cons ev evList)
  obtain r1 p1 where item: "CheckEvidence_item verify evpool ev = (r1, p1)"
    by (cases "CheckEvidence_item verify evpool ev")
  show ?case
  proof (cases "r1 = None \<and> Hash ev \<notin> set hashes")
    case False
    then show ?thesis using item by (auto split: option.splits)
  next
    case True
    then have d: "distinct (hashes @ [Hash ev])" using Cons.prems(1) by simp
    have nd: "\<not> distinct ((hashes @ [Hash ev]) @ map Hash evList)"
      using Cons.prems(2) by simp
    show ?thesis using True item Cons.IH [OF d nd] by simp
  qed
qed

text \<open>
  C9. \<open>CheckEvidence\<close> does not roll back: when the first item of the list is valid and
  neither pending nor committed, and two items of the list have the same hash, the call
  returns an error, and yet the first item is pending afterwards and \<open>Size\<close> has grown.
\<close>

theorem CheckEvidence_not_atomic:
  assumes nf: "db_fail (evidenceStore evpool) = no_fault"
    and unseen: "\<not> isPending evpool ev" "\<not> isCommitted evpool ev"
    and valid: "verify evpool ev = None"
    and dup: "\<not> distinct (map Hash (ev # evList))"
    and room: "unat (Size evpool) + length (ev # evList) < 2 ^ 32"
  shows "fst (CheckEvidence verify evpool (ev # evList)) \<noteq> None \<and>
         isPending (snd (CheckEvidence verify evpool (ev # evList))) ev \<and>
         unat (Size evpool) < unat (Size (snd (CheckEvidence verify evpool (ev # evList))))"
proof -
  let ?p1 = "snd (addPendingEvidence evpool ev)"
  obtain r p where res: "CheckEvidence_loop verify ?p1 [Hash ev] evList = (r, p)"
    by (cases "CheckEvidence_loop verify ?p1 [Hash ev] evList")
  have item: "CheckEvidence_item verify evpool ev = (None, ?p1)"
    using fastCheck_not_pending [OF nf unseen(1)] unseen(2) valid
    by (simp add: CheckEvidence_item_def)
  have all: "CheckEvidence verify evpool (ev # evList) = (r, p)"
    using item res by (simp add: CheckEvidence_def)
  have p1: "db_fail (evidenceStore ?p1) = no_fault"
    "map_of (db_data (evidenceStore ?p1)) (keyPending ev) \<noteq> None"
    "evidenceSize ?p1 = evidenceSize evpool + 1"
    using nf by (simp_all add: addPendingEvidence_no_fault update_conv')
  from CheckEvidence_loop_keeps [OF res, of "keyPending ev"] obtain j where
    keeps: "db_fail (evidenceStore p) = db_fail (evidenceStore ?p1)"
      "map_of (db_data (evidenceStore p)) (keyPending ev) \<noteq> None"
      "j \<le> length evList" "evidenceSize p = evidenceSize ?p1 + word_of_nat j"
    using p1(2) by blast
  have "r \<noteq> None"
    using CheckEvidence_loop_duplicate [of "[Hash ev]" evList verify ?p1] dup res by simp
  moreover have "isPending p ev"
    using keeps(1,2) p1(1) by (simp add: isPending_no_fault)
  moreover have "unat (Size evpool) < unat (Size p)"
  proof -
    have "evidenceSize p = evidenceSize evpool + word_of_nat (Suc j)"
      using keeps(4) p1(3) by simp
    moreover have "unat (evidenceSize evpool) + Suc j < 2 ^ 32"
      using room keeps(3) by (simp add: Size_def)
    ultimately have "unat (evidenceSize p) = unat (evidenceSize evpool) + Suc j"
      using unat_add_small by metis
    then show ?thesis by (simp add: Size_def)
  qed
  ultimately show ?thesis by (simp add: all)
qed

theorem CheckEvidence_not_atomic_witness:
  "fst (CheckEvidence (\<lambda>_ _. None) (ex_pool [] [] (ex_state 8 0))
      [ex_evidence 7 0 [1] 10, ex_evidence 6 0 [2] 10, ex_evidence 6 0 [2] 10]) \<noteq> None \<and>
   isPending (snd (CheckEvidence (\<lambda>_ _. None) (ex_pool [] [] (ex_state 8 0))
      [ex_evidence 7 0 [1] 10, ex_evidence 6 0 [2] 10, ex_evidence 6 0 [2] 10]))
     (ex_evidence 7 0 [1] 10) \<and>
   Size (ex_pool [] [] (ex_state 8 0)) = 0 \<and>
   Size (snd (CheckEvidence (\<lambda>_ _. None) (ex_pool [] [] (ex_state 8 0))
      [ex_evidence 7 0 [1] 10, ex_evidence 6 0 [2] 10, ex_evidence 6 0 [2] 10])) = 2"
  using CheckEvidence_not_atomic [of "ex_pool [] [] (ex_state 8 0)" "ex_evidence 7 0 [1] 10"
      "\<lambda>_ _. None" "[ex_evidence 6 0 [2] 10, ex_evidence 6 0 [2] 10]"]
  by (simp add: ex_pool_def ex_evidence_def isPending_def isCommitted_def db_Has_def
      no_fault_def keyPending_def keyCommitted_def Size_def CheckEvidence_def
      CheckEvidence_item_def fastCheck_def addPendingEvidence_def db_Set_def)

subsection \<open>Listing pending evidence within a byte budget\<close>

lemma decode_entries_Nil [simp]: "decode_entries [] = []"
  by (simp add: decode_entries_def map_filter_simps)

lemma decode_entries_Cons:
  "decode_entries (kv # it) =
     (case bytesToEv (snd kv) of None \<Rightarrow> decode_entries it | Some ev \<Rightarrow> ev # decode_entries it)"
  unfolding decode_entries_def by (simp add: map_filter_simps)

lemma length_decode_entries:
  "\<forall>kv\<in>set it. bytesToEv (snd kv) \<noteq> None \<Longrightarrow> length (decode_entries it) = length it"
  by (induction it) (auto simp: decode_entries_Cons)

lemma bytesToEv_Some:
  "bytesToEv v = Some ev \<longleftrightarrow> Evidence_Unmarshal v = Some (EvidencePb ev)"
  by (cases v)
    (auto simp: bytesToEv_def Evidence_Unmarshal_def EvidenceFromProto_def)

lemma EvidenceFromProto_EvidencePb [simp]: "EvidenceFromProto (EvidencePb ev) = Some ev"
  by (simp add: EvidenceFromProto_def)

lemma EvidenceList_Size_sum: "EvidenceList_Size xs = int (sum_list (map WireSize xs))"
  by (simp add: EvidenceList_Size_def tmproto_EvidenceList_Size_def pb_Size_def comp_def)

lemma tmproto_EvidenceList_Size_snoc:
  "tmproto_EvidenceList_Size (map EvidencePb xs @ [EvidencePb x]) = EvidenceList_Size (xs @ [x])"
  by (simp add: EvidenceList_Size_def)

lemma EvidenceList_Size_append:
  "EvidenceList_Size (xs @ ys) = EvidenceList_Size xs + EvidenceList_Size ys"
  by (simp add: EvidenceList_Size_sum)

lemma EvidenceList_Size_nonneg: "0 \<le> EvidenceList_Size xs"
  by (simp add: EvidenceList_Size_sum)

lemma EvidenceList_Size_take_mono:
  "m \<le> n \<Longrightarrow> EvidenceList_Size (take m xs) \<le> EvidenceList_Size (take n xs)"
proof -
  assume "m \<le> n"
  then have "take n xs = take m xs @ take (n - m) (drop m xs)"
    by (metis le_add_diff_inverse take_add)
  then show ?thesis
    using EvidenceList_Size_nonneg [of "take (n - m) (drop m xs)"]
    by (simp add: EvidenceList_Size_append)
qed

lemma listEvidence_loop_unbounded:
  assumes "\<forall>kv\<in>set it. bytesToEv (snd kv) \<noteq> None"
  shows "fst (listEvidence_loop (- 1) it evList sofar tot) = sofar @ decode_entries it"
  using assms
proof (induction it arbitrary: evList sofar tot)
  case Nil
  then show ?case by simp
next
  case (Cons kv it)
  from Cons.prems obtain ev where ev: "bytesToEv (snd kv) = Some ev" by auto
  then have un: "Evidence_Unmarshal (snd kv) = Some (EvidencePb ev)"
    by (simp add: bytesToEv_Some)
  from Cons.prems have rest: "\<forall>kv\<in>set it. bytesToEv (snd kv) \<noteq> None" by simp
  show ?case
    using Cons.IH [OF rest] ev un by (simp add: decode_entries_Cons Let_def)
qed

lemma listEvidence_loop_bounded:
  assumes "\<forall>kv\<in>set it. bytesToEv (snd kv) \<noteq> None"
    and "maxBytes \<noteq> - 1" and "tot = EvidenceList_Size sofar"
  shows "\<exists>n\<le>length it.
           listEvidence_loop maxBytes it (map EvidencePb sofar) sofar tot =
             (sofar @ take n (decode_entries it),
              EvidenceList_Size (sofar @ take n (decode_entries it)), None) \<and>
           (\<forall>m. 1 \<le> m \<and> m \<le> n \<longrightarrow>
              EvidenceList_Size (sofar @ take m (decode_entries it)) \<le> sint maxBytes) \<and>
           (n < length it \<longrightarrow>
              sint maxBytes < EvidenceList_Size (sofar @ take (Suc n) (decode_entries it)))"
  using assms
proof (induction it arbitrary: sofar tot)
  case Nil
  then show ?case by simp
next
  case (Cons kv it)
  from Cons.prems(1) obtain ev where ev: "bytesToEv (snd kv) = Some ev" by auto
  then have un: "Evidence_Unmarshal (snd kv) = Some (EvidencePb ev)"
    by (simp add: bytesToEv_Some)
  have dec: "decode_entries (kv # it) = ev # decode_entries it"
    using ev by (simp add: decode_entries_Cons)
  show ?case
  proof (cases "sint maxBytes < EvidenceList_Size (sofar @ [ev])")
    case True
    have "listEvidence_loop maxBytes (kv # it) (map EvidencePb sofar) sofar tot =
        (sofar, tot, None)"
      using un True Cons.prems(2) by (simp add: Let_def tmproto_EvidenceList_Size_snoc)
    then show ?thesis
      using True Cons.prems(3) dec by (intro exI [of _ 0]) simp
  next
    case False
    have step: "listEvidence_loop maxBytes (kv # it) (map EvidencePb sofar) sofar tot =
        listEvidence_loop maxBytes it (map EvidencePb (sofar @ [ev])) (sofar @ [ev])
          (EvidenceList_Size (sofar @ [ev]))"
      using un False by (simp add: Let_def tmproto_EvidenceList_Size_snoc)
    from Cons.prems(1) have rest: "\<forall>kv\<in>set it. bytesToEv (snd kv) \<noteq> None" by simp
    from Cons.IH [OF rest Cons.prems(2) refl, of "sofar @ [ev]"] obtain n where
      n: "n \<le> length it"
        "listEvidence_loop maxBytes it (map EvidencePb (sofar @ [ev])) (sofar @ [ev])
           (EvidenceList_Size (sofar @ [ev])) =
           ((sofar @ [ev]) @ take n (decode_entries it),
            EvidenceList_Size ((sofar @ [ev]) @ take n (decode_entries it)), None)"
        "\<forall>m. 1 \<le> m \<and> m \<le> n \<longrightarrow>
           EvidenceList_Size ((sofar @ [ev]) @ take m (decode_entries it)) \<le> sint maxBytes"
        "n < length it \<longrightarrow>
           sint maxBytes < EvidenceList_Size ((sofar @ [ev]) @ take (Suc n) (decode_entries it))"
      by blast
    have fits: "EvidenceList_Size (sofar @ take m (decode_entries (kv # it))) \<le> sint maxBytes"
      if "1 \<le> m" "m \<le> Suc n" for m
    proof (cases m)
      case 0
      then show ?thesis using that by simp
    next
      case (Suc m')
      show ?thesis
      proof (cases m')
        case 0
        then show ?thesis using False Suc dec by simp
      next
        case (Suc k)
        then have "1 \<le> m'" "m' \<le> n" using that \<open>m = Suc m'\<close> by simp_all
        then show ?thesis using n(3) \<open>m = Suc m'\<close> dec by simp
      qed
    qed
    show ?thesis
      using n(1) n(2) n(4) fits step dec by (intro exI [of _ "Suc n"]) simp
  qed
qed

text \<open>
  C4. When the iterator works, the pending values decode and the size counter is zero
  only for an empty pending bucket: for \<open>maxBytes \<ge> 0\<close>, \<open>PendingEvidence\<close> returns a
  prefix of the pending items in key order whose aggregate size fits in \<open>maxBytes\<close>, no
  longer prefix fits, and the size returned is that of the result; for \<open>maxBytes = -1\<close>
  it returns all pending items. The entries are in ascending key order, every key once.
\<close>

theorem PendingEvidence_longest_prefix:
  assumes iter: "\<not> db_fail (evidenceStore evpool) (OpIterate prefixPending)"
    and dec: "\<forall>kv\<in>set (pending_entries evpool). bytesToEv (snd kv) \<noteq> None"
    and sz: "Size evpool = 0 \<longrightarrow> pending_entries evpool = []"
  shows "(0 \<le>s maxBytes \<longrightarrow>
            (\<exists>n\<le>length (pending_evidence evpool).
               fst (PendingEvidence evpool maxBytes) = take n (pending_evidence evpool)) \<and>
            EvidenceList_Size (fst (PendingEvidence evpool maxBytes)) \<le> sint maxBytes \<and>
            (\<forall>m\<le>length (pending_evidence evpool).
               EvidenceList_Size (take m (pending_evidence evpool)) \<le> sint maxBytes \<longrightarrow>
               m \<le> length (fst (PendingEvidence evpool maxBytes))) \<and>
            snd (PendingEvidence evpool maxBytes) =
              EvidenceList_Size (fst (PendingEvidence evpool maxBytes))) \<and>
         fst (PendingEvidence evpool (- 1)) = pending_evidence evpool \<and>
         sorted (map key_order (map fst (pending_entries evpool))) \<and>
         distinct (map fst (pending_entries evpool))"
proof (intro conjI impI)
  let ?it = "pending_entries evpool"
  let ?evs = "pending_evidence evpool"
  have it: "IteratePrefix (evidenceStore evpool) prefixPending = Some ?it"
    using iter by (simp add: IteratePrefix_def pending_entries_def)
  have len: "length ?evs = length ?it"
    using dec by (simp add: pending_evidence_def length_decode_entries)
  show "fst (PendingEvidence evpool (- 1)) = ?evs"
  proof (cases "Size evpool = 0")
    case True
    then show ?thesis using sz by (simp add: PendingEvidence_def pending_evidence_def)
  next
    case False
    then show ?thesis
      using listEvidence_loop_unbounded [OF dec, of "[]" "[]" 0]
      by (auto simp: PendingEvidence_def listEvidence_def it pending_evidence_def
          split: prod.splits)
  qed
  show "sorted (map key_order (map fst ?it))"
    unfolding pending_entries_def by (rule sorted_prefix_entries)
  show "distinct (map fst ?it)"
    unfolding pending_entries_def by (rule distinct_prefix_entries)
  assume nonneg: "0 \<le>s maxBytes"
  then have mb: "0 \<le> sint maxBytes" "maxBytes \<noteq> - 1"
    by (auto simp: word_sle_eq)
  obtain n where n: "n \<le> length ?it"
    and res: "fst (PendingEvidence evpool maxBytes) = take n ?evs"
        "snd (PendingEvidence evpool maxBytes) = EvidenceList_Size (take n ?evs)"
    and fits: "\<forall>m. 1 \<le> m \<and> m \<le> n \<longrightarrow> EvidenceList_Size (take m ?evs) \<le> sint maxBytes"
    and stop: "n < length ?it \<longrightarrow> sint maxBytes < EvidenceList_Size (take (Suc n) ?evs)"
  proof (cases "Size evpool = 0")
    case True
    then have "?it = []" using sz by simp
    then show ?thesis
      using True that [of 0]
      by (simp add: PendingEvidence_def pending_evidence_def EvidenceList_Size_sum)
  next
    case False
    from listEvidence_loop_bounded [OF dec mb(2), of 0 "[]"] obtain k where
      "k \<le> length ?it"
      "listEvidence_loop maxBytes ?it [] [] 0 =
         (take k ?evs, EvidenceList_Size (take k ?evs), None)"
      "\<forall>m. 1 \<le> m \<and> m \<le> k \<longrightarrow> EvidenceList_Size (take m ?evs) \<le> sint maxBytes"
      "k < length ?it \<longrightarrow> sint maxBytes < EvidenceList_Size (take (Suc k) ?evs)"
      by (auto simp: pending_evidence_def EvidenceList_Size_sum)
    then show ?thesis
      using False that [of k] by (simp add: PendingEvidence_def listEvidence_def it)
  qed
  show "\<exists>n\<le>length ?evs. fst (PendingEvidence evpool maxBytes) = take n ?evs"
    using n res(1) len by auto
  show "EvidenceList_Size (fst (PendingEvidence evpool maxBytes)) \<le> sint maxBytes"
  proof (cases n)
    case 0
    then show ?thesis using res(1) mb(1) by (simp add: EvidenceList_Size_sum)
  next
    case (Suc k)
    then show ?thesis using fits res(1) by simp
  qed
  show "snd (PendingEvidence evpool maxBytes) =
        EvidenceList_Size (fst (PendingEvidence evpool maxBytes))"
    using res by simp
  show "\<forall>m\<le>length ?evs. EvidenceList_Size (take m ?evs) \<le> sint maxBytes \<longrightarrow>
          m \<le> length (fst (PendingEvidence evpool maxBytes))"
  proof (intro allI impI)
    fix m
    assume m: "m \<le> length ?evs" "EvidenceList_Size (take m ?evs) \<le> sint maxBytes"
    have "m \<le> n"
    proof (rule ccontr)
      assume "\<not> m \<le> n"
      then have "Suc n \<le> m" by simp
      then have "n < length ?it" using m(1) len by simp
      then have "sint maxBytes < EvidenceList_Size (take (Suc n) ?evs)" using stop by simp
      also have "\<dots> \<le> EvidenceList_Size (take m ?evs)"
        using \<open>Suc n \<le> m\<close> by (rule EvidenceList_Size_take_mono)
      finally show False using m(2) by simp
    qed
    then show "m \<le> length (fst (PendingEvidence evpool maxBytes))"
      using res(1) n len by simp
  qed
qed

lemma pending_entries_ex_three:
  "pending_entries ex_three =
     [(keyPending (ex_evidence 5 0 [1] 300), EvidenceBytes (ex_evidence 5 0 [1] 300)),
      (keyPending (ex_evidence 6 0 [2] 400), EvidenceBytes (ex_evidence 6 0 [2] 400)),
      (keyPending (ex_evidence 7 0 [3] 500), EvidenceBytes (ex_evidence 7 0 [3] 500))]"
  by (simp add: pending_entries_def ex_three_def ex_pool_def prefix_entries_def ordered_keys_def
      keyPending_def ex_evidence_def key_order_def prefixPending_def map_filter_simps)

theorem PendingEvidence_longest_prefix_witness:
  "fst (PendingEvidence ex_three 600) = [ex_evidence 5 0 [1] 300] \<and>
   fst (PendingEvidence ex_three 700) = [ex_evidence 5 0 [1] 300, ex_evidence 6 0 [2] 400] \<and>
   snd (PendingEvidence ex_three 700) = 700 \<and>
   fst (PendingEvidence ex_three (- 1)) =
     [ex_evidence 5 0 [1] 300, ex_evidence 6 0 [2] 400, ex_evidence 7 0 [3] 500]"
proof -
  have it: "IteratePrefix (evidenceStore ex_three) prefixPending = Some (pending_entries ex_three)"
    by (simp add: IteratePrefix_def pending_entries_def ex_three_def ex_pool_def no_fault_def)
  have sz: "Size ex_three = 3"
    by (simp add: Size_def ex_three_def ex_pool_def)
  have w: "WireSize (ex_evidence h t x n) = n" for h t x n
    by (simp add: ex_evidence_def)
  show ?thesis
    using PendingEvidence_longest_prefix [of ex_three 600]
    by (simp add: PendingEvidence_def listEvidence_def it sz pending_entries_ex_three
        bytesToEv_def Evidence_Unmarshal_def EvidenceList_Size_sum
        tmproto_EvidenceList_Size_def pb_Size_def w)
qed

subsection \<open>Flushing the consensus buffer\<close>

lemma formed_iff:
  "formed enc evpool st vs = Some d \<longleftrightarrow> spec_forms enc evpool st vs d"
  by (auto simp: formed_def formDuplicateVoteEvidence_def spec_forms_def word_sless_alt
      split: option.splits)

lemma formDuplicateVoteEvidence_cong:
  "stateDB q = stateDB p \<Longrightarrow> blockStore q = blockStore p \<Longrightarrow>
   formDuplicateVoteEvidence enc q st a b = formDuplicateVoteEvidence enc p st a b"
  by (simp add: formDuplicateVoteEvidence_def split: option.splits)

lemma formed_cong:
  "stateDB q = stateDB p \<Longrightarrow> blockStore q = blockStore p \<Longrightarrow>
   formed enc q st vs = formed enc p st vs"
  by (simp add: formed_def formDuplicateVoteEvidence_cong [of q p] split: option.splits)

lemma nil_dereference_cong:
  "stateDB q = stateDB p \<Longrightarrow> blockStore q = blockStore p \<Longrightarrow>
   nil_dereference enc q st vs = nil_dereference enc p st vs"
  by (simp add: nil_dereference_def formDuplicateVoteEvidence_cong [of q p] split: option.splits)

lemma isl_processConsensusBuffer_item:
  "isl (processConsensusBuffer_item enc st q vs) \<longleftrightarrow> nil_dereference enc q st vs"
  by (simp add: processConsensusBuffer_item_def nil_dereference_def split: option.splits)

lemma processConsensusBuffer_item_keeps:
  assumes "processConsensusBuffer_item enc st q vs = Inr p"
  shows "db_fail (evidenceStore p) = db_fail (evidenceStore q) \<and>
         pruningHeight p = pruningHeight q \<and> pruningTime p = pruningTime q \<and>
         stateDB p = stateDB q \<and> blockStore p = blockStore q \<and> state p = state q \<and>
         (map_of (db_data (evidenceStore q)) k \<noteq> None \<longrightarrow>
            map_of (db_data (evidenceStore p)) k \<noteq> None)"
  using assms
  by (auto simp: processConsensusBuffer_item_def addPendingEvidence_def db_Set_def PushBack_def
      update_conv' split: option.splits prod.splits if_splits)

lemma processConsensusBuffer_loop_keeps:
  assumes "processConsensusBuffer_loop enc st q buf = Inr p"
  shows "db_fail (evidenceStore p) = db_fail (evidenceStore q) \<and>
         pruningHeight p = pruningHeight q \<and> pruningTime p = pruningTime q \<and>
         stateDB p = stateDB q \<and> blockStore p = blockStore q \<and> state p = state q \<and>
         (map_of (db_data (evidenceStore q)) k \<noteq> None \<longrightarrow>
            map_of (db_data (evidenceStore p)) k \<noteq> None)"
  using assms
proof (induction buf arbitrary: q)
  case Nil
  then show ?case by simp
next
  case (Cons vs buf)
  from Cons.prems obtain q1 where
    q1: "processConsensusBuffer_item enc st q vs = Inr q1"
      "processConsensusBuffer_loop enc st q1 buf = Inr p"
    by (auto split: sum.splits)
  show ?case
    using processConsensusBuffer_item_keeps [OF q1(1), of k] Cons.IH [OF q1(2)] by simp
qed

lemma isl_processConsensusBuffer_loop:
  "isl (processConsensusBuffer_loop enc st q buf) \<longleftrightarrow>
     (\<exists>vs\<in>set buf. nil_dereference enc q st vs)"
proof (induction buf arbitrary: q)
  case Nil
  then show ?case by simp
next
  case (Cons vs buf)
  show ?case
  proof (cases "processConsensusBuffer_item enc st q vs")
    case (Inl pn)
    then have "nil_dereference enc q st vs"
      using isl_processConsensusBuffer_item [of enc st q vs] by simp
    then show ?thesis using Inl by simp
  next
    case (Inr q1)
    then have no: "\<not> nil_dereference enc q st vs"
      using isl_processConsensusBuffer_item [of enc st q vs] by simp
    note k = processConsensusBuffer_item_keeps [OF Inr, of undefined]
    have "nil_dereference enc q1 st vs' = nil_dereference enc q st vs'" for vs'
      using k by (intro nil_dereference_cong) simp_all
    then show ?thesis
      using Inr no Cons.IH [of q1] by simp
  qed
qed

lemma processConsensusBuffer_item_no_fault:
  assumes "db_fail (evidenceStore q) = no_fault" "\<not> nil_dereference enc q st vs"
  shows "processConsensusBuffer_item enc st q vs =
     Inr (case formed enc q st vs of
        None \<Rightarrow> q
      | Some d \<Rightarrow>
          if map_of (db_data (evidenceStore q)) (keyPending d) \<noteq> None \<or>
             map_of (db_data (evidenceStore q)) (keyCommitted d) \<noteq> None
          then q
          else q\<lparr>evidenceStore :=
                   (evidenceStore q)\<lparr>db_data :=
                      AList.update (keyPending d) (EvidenceBytes d) (db_data (evidenceStore q))\<rparr>,
                 evidenceSize := evidenceSize q + 1,
                 evidenceList := evidenceList q @ [d]\<rparr>)"
proof (cases "VoteA vs")
  case None
  then show ?thesis using assms(2) by (simp add: nil_dereference_def)
next
  case (Some a)
  show ?thesis
  proof (cases "formDuplicateVoteEvidence enc q st a (VoteB vs)")
    case None
    then show ?thesis
      using Some by (simp add: processConsensusBuffer_item_def formed_def)
  next
    case (Some ptr)
    then obtain d where d: "ptr = Some d"
      using assms(2) \<open>VoteA vs = Some a\<close> by (cases ptr) (simp_all add: nil_dereference_def)
    show ?thesis
      using assms(1) Some d \<open>VoteA vs = Some a\<close>
      by (simp add: processConsensusBuffer_item_def formed_def isPending_def
          isCommitted_def db_Has_def addPendingEvidence_def db_Set_def PushBack_def no_fault_def)
  qed
qed

lemma processConsensusBuffer_loop_no_fault:
  assumes "db_fail (evidenceStore q) = no_fault"
    and "\<forall>vs\<in>set buf. \<not> nil_dereference enc q st vs"
  shows "\<exists>r added.
     processConsensusBuffer_loop enc st q buf = Inr r \<and>
     evidenceList r = evidenceList q @ added \<and>
     evidenceSize r = evidenceSize q + word_of_nat (length added) \<and>
     db_fail (evidenceStore r) = no_fault \<and>
     stateDB r = stateDB q \<and>
     blockStore r = blockStore q \<and>
     map_of (db_data (evidenceStore r)) =
       map_of (db_data (evidenceStore q)) ++
       map_of (map (\<lambda>d. (keyPending d, EvidenceBytes d)) added) \<and>
     distinct (map keyPending added) \<and>
     (\<forall>d\<in>set added.
        map_of (db_data (evidenceStore q)) (keyPending d) = None \<and>
        map_of (db_data (evidenceStore q)) (keyCommitted d) = None \<and>
        (\<exists>vs\<in>set buf. formed enc q st vs = Some d)) \<and>
     (\<forall>vs\<in>set buf. \<forall>d. formed enc q st vs = Some d \<longrightarrow>
        map_of (db_data (evidenceStore r)) (keyPending d) \<noteq> None \<or>
        map_of (db_data (evidenceStore r)) (keyCommitted d) \<noteq> None)"
  using assms
proof (induction buf arbitrary: q)
  case Nil
  then show ?case by simp
next
  case (Cons vs buf)
  let ?m = "\<lambda>p. map_of (db_data (evidenceStore p))"
  let ?kv = "\<lambda>d. (keyPending d, EvidenceBytes d)"
  have no: "\<not> nil_dereference enc q st vs" using Cons.prems(2) by simp
  obtain q1 where item: "processConsensusBuffer_item enc st q vs = Inr q1"
    and step: "q1 = (case formed enc q st vs of
        None \<Rightarrow> q
      | Some d \<Rightarrow>
          if ?m q (keyPending d) \<noteq> None \<or> ?m q (keyCommitted d) \<noteq> None
          then q
          else q\<lparr>evidenceStore :=
                   (evidenceStore q)\<lparr>db_data :=
                      AList.update (keyPending d) (EvidenceBytes d) (db_data (evidenceStore q))\<rparr>,
                 evidenceSize := evidenceSize q + 1,
                 evidenceList := evidenceList q @ [d]\<rparr>)"
    using processConsensusBuffer_item_no_fault [OF Cons.prems(1) no] by simp
  have nf1: "db_fail (evidenceStore q1) = no_fault"
    using Cons.prems(1) by (simp add: step split: option.splits)
  have same: "stateDB q1 = stateDB q" "blockStore q1 = blockStore q"
    by (simp_all add: step split: option.splits)
  note form1 = formed_cong [OF same, of enc st]
  have nil1: "\<forall>vs\<in>set buf. \<not> nil_dereference enc q1 st vs"
    using Cons.prems(2) nil_dereference_cong [OF same, of enc st] by simp
  from Cons.IH [OF nf1 nil1] obtain r added where ih:
    "processConsensusBuffer_loop enc st q1 buf = Inr r"
    "evidenceList r = evidenceList q1 @ added"
    "evidenceSize r = evidenceSize q1 + word_of_nat (length added)"
    "db_fail (evidenceStore r) = no_fault"
    "stateDB r = stateDB q1"
    "blockStore r = blockStore q1"
    "?m r = ?m q1 ++ map_of (map ?kv added)"
    "distinct (map keyPending added)"
    "\<forall>d\<in>set added. ?m q1 (keyPending d) = None \<and> ?m q1 (keyCommitted d) = None \<and>
        (\<exists>vs\<in>set buf. formed enc q st vs = Some d)"
    "\<forall>vs\<in>set buf. \<forall>d. formed enc q st vs = Some d \<longrightarrow>
        ?m r (keyPending d) \<noteq> None \<or> ?m r (keyCommitted d) \<noteq> None"
    unfolding form1 by blast
  have loop: "processConsensusBuffer_loop enc st q (vs # buf) = Inr r"
    using item ih(1) by simp
  have mono: "?m r k \<noteq> None" if "?m q1 k \<noteq> None" for k
    using that ih(7) by (auto simp: map_add_def split: option.splits)
  show ?case
  proof (cases "q1 = q")
    case True
    have head: "?m r (keyPending d) \<noteq> None \<or> ?m r (keyCommitted d) \<noteq> None"
      if "formed enc q st vs = Some d" for d
    proof -
      have "?m q (keyPending d) \<noteq> None \<or> ?m q (keyCommitted d) \<noteq> None"
      proof (rule ccontr)
        assume "\<not> ?thesis"
        then have "evidenceList q1 = evidenceList q @ [d]"
          using that by (simp add: step)
        then show False using True by simp
      qed
      moreover have "?m r k \<noteq> None" if "?m q k \<noteq> None" for k
        using mono [of k] that True by simp
      ultimately show ?thesis by blast
    qed
    have b1: "evidenceList r = evidenceList q @ added"
      using ih(2) True by simp
    have b2: "evidenceSize r = evidenceSize q + word_of_nat (length added)"
      using ih(3) True by simp
    have b5: "stateDB r = stateDB q" "blockStore r = blockStore q"
      using ih(5,6) same by simp_all
    have b7: "?m r = ?m q ++ map_of (map ?kv added)"
      using ih(7) True by simp
    have b9: "\<forall>d\<in>set added. ?m q (keyPending d) = None \<and> ?m q (keyCommitted d) = None \<and>
        (\<exists>vs'\<in>set (vs # buf). formed enc q st vs' = Some d)"
      using ih(9) True by auto
    have b10: "\<forall>vs'\<in>set (vs # buf). \<forall>d. formed enc q st vs' = Some d \<longrightarrow>
        ?m r (keyPending d) \<noteq> None \<or> ?m r (keyCommitted d) \<noteq> None"
      using ih(10) head by auto
    show ?thesis
      using loop b1 b2 ih(4) b5 b7 ih(8) b9 b10
      by (intro exI [of _ r] exI [of _ added] conjI) assumption+
  next
    case False
    then obtain d where d: "formed enc q st vs = Some d"
      "?m q (keyPending d) = None" "?m q (keyCommitted d) = None"
      and q1: "q1 = q\<lparr>evidenceStore :=
                   (evidenceStore q)\<lparr>db_data :=
                      AList.update (keyPending d) (EvidenceBytes d) (db_data (evidenceStore q))\<rparr>,
                 evidenceSize := evidenceSize q + 1,
                 evidenceList := evidenceList q @ [d]\<rparr>"
      using step by (auto split: option.splits if_splits)
    have m1: "?m q1 = (?m q)(keyPending d \<mapsto> EvidenceBytes d)"
      unfolding q1 by (simp add: update_conv')
    have notin: "keyPending d \<notin> keyPending ` set added"
    proof
      assume "keyPending d \<in> keyPending ` set added"
      then obtain d' where "d' \<in> set added" "keyPending d' = keyPending d" by auto
      then have "?m q1 (keyPending d) = None" using ih(9) by metis
      then show False unfolding m1 by simp
    qed
    have a1: "evidenceList r = evidenceList q @ (d # added)"
      using ih(2) unfolding q1 by simp
    have a2: "evidenceSize r = evidenceSize q + word_of_nat (length (d # added))"
      using ih(3) unfolding q1 by simp
    have a5: "stateDB r = stateDB q" "blockStore r = blockStore q"
      using ih(5,6) same by simp_all
    have a6: "?m r = ?m q ++ map_of (map ?kv (d # added))"
    proof
      fix k
      show "?m r k = (?m q ++ map_of (map ?kv (d # added))) k"
      proof (cases "k = keyPending d")
        case True
        have "map_of (map ?kv added) (keyPending d) = None"
          using notin by (simp add: map_of_eq_None_iff image_image)
        then show ?thesis using True unfolding ih(7) m1 by (simp add: map_add_def)
      next
        case False
        then show ?thesis unfolding ih(7) m1 by (simp add: map_add_def split: option.splits)
      qed
    qed
    have a7: "distinct (map keyPending (d # added))"
      using ih(8) notin by simp
    have a8: "\<forall>e\<in>set (d # added). ?m q (keyPending e) = None \<and> ?m q (keyCommitted e) = None \<and>
        (\<exists>vs'\<in>set (vs # buf). formed enc q st vs' = Some e)"
    proof
      fix e assume "e \<in> set (d # added)"
      then consider "e = d" | "e \<in> set added" by auto
      then show "?m q (keyPending e) = None \<and> ?m q (keyCommitted e) = None \<and>
        (\<exists>vs'\<in>set (vs # buf). formed enc q st vs' = Some e)"
      proof cases
        case 1
        then show ?thesis using d by simp
      next
        case 2
        then have e: "?m q1 (keyPending e) = None" "?m q1 (keyCommitted e) = None"
          "\<exists>vs\<in>set buf. formed enc q st vs = Some e"
          using ih(9) by auto
        have "?m q (keyPending e) = None" "?m q (keyCommitted e) = None"
          using e(1,2) unfolding m1 by (auto split: if_splits)
        then show ?thesis using e(3) by auto
      qed
    qed
    have a9: "\<forall>vs'\<in>set (vs # buf). \<forall>e. formed enc q st vs' = Some e \<longrightarrow>
        ?m r (keyPending e) \<noteq> None \<or> ?m r (keyCommitted e) \<noteq> None"
    proof (intro ballI allI impI)
      fix vs' e
      assume "vs' \<in> set (vs # buf)" and e: "formed enc q st vs' = Some e"
      then consider "vs' = vs" | "vs' \<in> set buf" by auto
      then show "?m r (keyPending e) \<noteq> None \<or> ?m r (keyCommitted e) \<noteq> None"
      proof cases
        case 1
        then have "e = d" using e d(1) by simp
        then have "?m q1 (keyPending e) \<noteq> None" unfolding m1 by simp
        then show ?thesis using mono by blast
      next
        case 2
        then show ?thesis using ih(10) e by blast
      qed
    qed
    show ?thesis
      using loop a1 a2 ih(4) a5 a6 a7 a8 a9
      by (intro exI [of _ r] exI [of _ "d # added"] conjI) assumption+
  qed
qed

text \<open>
  C5. With a store that performs its operations: \<open>processConsensusBuffer\<close> panics when
  the buffer holds a pair at which \<^verbatim>\<open>nil\<close> is dereferenced; otherwise it returns and
  leaves the buffer empty; every pair for
  which the spec forms evidence (votes at the height of the new state: its time and
  validators; votes below it: the header time and validator set of that height, both
  found) has that evidence pending or committed afterwards; and the items added to the
  list, the store and the size counter are exactly evidence formed in this way that was
  neither pending nor committed before, each once. Pairs above the height of the state,
  pairs with a failed lookup and pairs already pending or committed add nothing.
\<close>

theorem processConsensusBuffer_forms_evidence:
  assumes nf: "db_fail (evidenceStore evpool) = no_fault"
  shows "((\<exists>vs\<in>set (consensusBuffer evpool). nil_dereference enc evpool st vs) \<longrightarrow>
            isl (processConsensusBuffer enc evpool st)) \<and>
         ((\<forall>vs\<in>set (consensusBuffer evpool). \<not> nil_dereference enc evpool st vs) \<longrightarrow>
            (\<exists>p. processConsensusBuffer enc evpool st = Inr p \<and>
             consensusBuffer p = [] \<and>
             (\<forall>vs\<in>set (consensusBuffer evpool). \<forall>d. spec_forms enc evpool st vs d \<longrightarrow>
                isPending p d \<or> isCommitted p d) \<and>
             (\<exists>added.
                evidenceList p = evidenceList evpool @ added \<and>
                Size p = Size evpool + word_of_nat (length added) \<and>
                distinct (map keyPending added) \<and>
                (\<forall>d\<in>set added.
                   \<not> isPending evpool d \<and> \<not> isCommitted evpool d \<and>
                   map_of (db_data (evidenceStore p)) (keyPending d) = Some (EvidenceBytes d) \<and>
                   (\<exists>vs\<in>set (consensusBuffer evpool). spec_forms enc evpool st vs d)) \<and>
                (\<forall>ev. isPending p ev \<longleftrightarrow> isPending evpool ev \<or> keyPending ev \<in> keyPending ` set added) \<and>
                (\<forall>ev. isCommitted p ev \<longleftrightarrow> isCommitted evpool ev))))"
proof (intro conjI impI)
  assume "\<exists>vs\<in>set (consensusBuffer evpool). nil_dereference enc evpool st vs"
  then have "isl (processConsensusBuffer_loop enc st evpool (consensusBuffer evpool))"
    by (simp add: isl_processConsensusBuffer_loop)
  then show "isl (processConsensusBuffer enc evpool st)"
    by (cases "processConsensusBuffer_loop enc st evpool (consensusBuffer evpool)")
      (simp_all add: processConsensusBuffer_def)
next
  assume nonil: "\<forall>vs\<in>set (consensusBuffer evpool). \<not> nil_dereference enc evpool st vs"
  let ?kv = "\<lambda>d. (keyPending d, EvidenceBytes d)"
  from processConsensusBuffer_loop_no_fault [OF nf nonil]
  obtain q added where f:
    "processConsensusBuffer_loop enc st evpool (consensusBuffer evpool) = Inr q"
    "evidenceList q = evidenceList evpool @ added"
    "evidenceSize q = evidenceSize evpool + word_of_nat (length added)"
    "db_fail (evidenceStore q) = no_fault"
    "map_of (db_data (evidenceStore q)) =
       map_of (db_data (evidenceStore evpool)) ++ map_of (map ?kv added)"
    "distinct (map keyPending added)"
    "\<forall>d\<in>set added.
        map_of (db_data (evidenceStore evpool)) (keyPending d) = None \<and>
        map_of (db_data (evidenceStore evpool)) (keyCommitted d) = None \<and>
        (\<exists>vs\<in>set (consensusBuffer evpool). formed enc evpool st vs = Some d)"
    "\<forall>vs\<in>set (consensusBuffer evpool). \<forall>d.
        formed enc evpool st vs = Some d \<longrightarrow>
        map_of (db_data (evidenceStore q)) (keyPending d) \<noteq> None \<or>
        map_of (db_data (evidenceStore q)) (keyCommitted d) \<noteq> None"
    by blast
  let ?p = "q\<lparr>consensusBuffer := []\<rparr>"
  have p: "processConsensusBuffer enc evpool st = Inr ?p"
    by (simp add: processConsensusBuffer_def f(1))
  have nfp: "db_fail (evidenceStore ?p) = no_fault"
    using f(4) by simp
  have data: "db_data (evidenceStore ?p) = db_data (evidenceStore q)"
    by simp
  have look: "map_of (map ?kv added) k = Some v \<longleftrightarrow> (\<exists>d\<in>set added. k = keyPending d \<and> v = EvidenceBytes d)"
    for k v
  proof -
    have "distinct (map fst (map ?kv added))"
      using f(6) by (simp add: comp_def)
    then have "map_of (map ?kv added) k = Some v \<longleftrightarrow> (k, v) \<in> set (map ?kv added)"
      by (rule map_of_eq_Some_iff)
    then show ?thesis by auto
  qed
  have none: "map_of (map ?kv added) k = None \<longleftrightarrow> k \<notin> keyPending ` set added" for k
    by (simp add: map_of_eq_None_iff image_image)
  have pend: "isPending ?p ev \<longleftrightarrow> isPending evpool ev \<or> keyPending ev \<in> keyPending ` set added"
    for ev
    using none [of "keyPending ev"]
    by (auto simp: isPending_no_fault [OF nfp] isPending_no_fault [OF nf] data f(5) map_add_def
        split: option.splits)
  have nokc: "keyCommitted ev \<notin> keyPending ` set added" for ev
    by auto
  have comm: "isCommitted ?p ev \<longleftrightarrow> isCommitted evpool ev" for ev
    using none [of "keyCommitted ev"] nokc [of ev]
    by (auto simp: isCommitted_no_fault [OF nfp] isCommitted_no_fault [OF nf] data f(5)
        map_add_def split: option.splits)
  have stored: "map_of (db_data (evidenceStore ?p)) (keyPending d) = Some (EvidenceBytes d)"
    if "d \<in> set added" for d
  proof -
    have "keyPending d \<in> keyPending ` set added"
      using that by (rule imageI)
    then have "map_of (map ?kv added) (keyPending d) \<noteq> None"
      using none [of "keyPending d"] by simp
    then obtain v where v: "map_of (map ?kv added) (keyPending d) = Some v"
      by blast
    then obtain d' where d': "d' \<in> set added" "keyPending d = keyPending d'" "v = EvidenceBytes d'"
      using look by blast
    moreover have "inj_on keyPending (set added)"
      using f(6) by (simp add: distinct_map)
    ultimately have "d' = d"
      using that by (auto dest: inj_onD)
    then show ?thesis using v d'(3) by (simp add: data f(5) map_add_def)
  qed
  have c1: "consensusBuffer ?p = []"
    by simp
  have c2: "\<forall>vs\<in>set (consensusBuffer evpool). \<forall>d. spec_forms enc evpool st vs d \<longrightarrow>
       isPending ?p d \<or> isCommitted ?p d"
    using f(8)
    by (simp add: isPending_no_fault [OF nfp] isCommitted_no_fault [OF nfp] formed_iff)
  have c3: "evidenceList ?p = evidenceList evpool @ added"
    using f(2) by simp
  have c4: "Size ?p = Size evpool + word_of_nat (length added)"
    using f(3) by (simp add: Size_def)
  have c5: "\<forall>d\<in>set added.
          \<not> isPending evpool d \<and> \<not> isCommitted evpool d \<and>
          map_of (db_data (evidenceStore ?p)) (keyPending d) = Some (EvidenceBytes d) \<and>
          (\<exists>vs\<in>set (consensusBuffer evpool). spec_forms enc evpool st vs d)"
    using f(7) stored
    by (simp add: isPending_no_fault [OF nf] isCommitted_no_fault [OF nf] formed_iff)
  show "\<exists>p. processConsensusBuffer enc evpool st = Inr p \<and>
    consensusBuffer p = [] \<and>
    (\<forall>vs\<in>set (consensusBuffer evpool). \<forall>d. spec_forms enc evpool st vs d \<longrightarrow>
       isPending p d \<or> isCommitted p d) \<and>
    (\<exists>added.
       evidenceList p = evidenceList evpool @ added \<and>
       Size p = Size evpool + word_of_nat (length added) \<and>
       distinct (map keyPending added) \<and>
       (\<forall>d\<in>set added.
          \<not> isPending evpool d \<and> \<not> isCommitted evpool d \<and>
          map_of (db_data (evidenceStore p)) (keyPending d) = Some (EvidenceBytes d) \<and>
          (\<exists>vs\<in>set (consensusBuffer evpool). spec_forms enc evpool st vs d)) \<and>
       (\<forall>ev. isPending p ev \<longleftrightarrow> isPending evpool ev \<or> keyPending ev \<in> keyPending ` set added) \<and>
       (\<forall>ev. isCommitted p ev \<longleftrightarrow> isCommitted evpool ev))"
    by (intro exI [of _ ?p] conjI exI [of _ added] allI p c1 c2 c3 c4 f(6) c5 pend comm)
qed


theorem processConsensusBuffer_forms_evidence_witness:
  "\<exists>p. processConsensusBuffer ex_enc
          (ReportConflictingVotes ex_hist_pool (Some (ex_vote 8 [1])) (Some (ex_vote 8 [2])))
          (ex_state 13 13000000000) = Inr p \<and>
       NewDuplicateVoteEvidence ex_enc (ex_vote 8 [1]) (Some (ex_vote 8 [2])) 8000000000
         ex_validators = Some (hd (evidenceList p)) \<and>
       length (evidenceList p) = 1 \<and>
       consensusBuffer p = [] \<and>
       Size p = 1 \<and>
       Time (hd (evidenceList p)) = 8000000000 \<and>
       kind (hd (evidenceList p)) =
         DuplicateVote (ex_vote 8 [1]) (Some (ex_vote 8 [2])) ex_validators"
  using processConsensusBuffer_forms_evidence
    [of "ReportConflictingVotes ex_hist_pool (Some (ex_vote 8 [1])) (Some (ex_vote 8 [2]))" ex_enc
        "ex_state 13 13000000000"]
  by (simp add: processConsensusBuffer_def processConsensusBuffer_item_def
      formDuplicateVoteEvidence_def ReportConflictingVotes_def ex_hist_pool_def ex_pool_def
      ex_state_def ex_vote_def word_sless_alt isPending_def isCommitted_def db_Has_def
      no_fault_def addPendingEvidence_def db_Set_def PushBack_def Size_def
      NewDuplicateVoteEvidence_def ex_enc_def nil_dereference_def)

subsection \<open>When Update panics\<close>

text \<open>
  C7 (as amended). \<open>Update\<close> panics if and only if the height of the new state is less than
  or equal to the height of the cached state, or the consensus buffer holds a pair at which
  the loop of \<open>processConsensusBuffer\<close> dereferences \<^verbatim>\<open>nil\<close>: a pair whose first vote
  is \<^verbatim>\<open>nil\<close>, or a pair for which the constructor is reached and returns \<^verbatim>\<open>nil\<close>. The
  items of the block are values, so none of them is \<^verbatim>\<open>nil\<close>.
\<close>

theorem Update_panics_iff_height_or_nil:
  "isl (Update enc evpool st ev) \<longleftrightarrow>
     LastBlockHeight st \<le>s LastBlockHeight (state evpool) \<or>
     (\<exists>vs\<in>set (consensusBuffer evpool). nil_dereference enc evpool st vs)"
proof (cases "LastBlockHeight st \<le>s LastBlockHeight (state evpool)")
  case True
  then show ?thesis by (simp add: Update_def)
next
  case False
  have "isl (Update enc evpool st ev) \<longleftrightarrow> isl (processConsensusBuffer enc evpool st)"
    using False by (simp add: Update_def Let_def split: sum.splits prod.splits)
  also have "\<dots> \<longleftrightarrow> isl (processConsensusBuffer_loop enc st evpool (consensusBuffer evpool))"
    by (simp add: processConsensusBuffer_def split: sum.splits)
  also have "\<dots> \<longleftrightarrow> (\<exists>vs\<in>set (consensusBuffer evpool). nil_dereference enc evpool st vs)"
    by (rule isl_processConsensusBuffer_loop)
  finally show ?thesis using False by simp
qed

theorem Update_panics_iff_height_or_nil_witness:
  "isl (Update ex_enc (ex_pool [] [] (ex_state 5 0)) (ex_state 5 1) []) \<and>
   isl (Update ex_enc (ex_pool [] [] (ex_state 5 0)) (ex_state 4 1) []) \<and>
   \<not> isl (Update ex_enc (ex_pool [] [] (ex_state 5 0)) (ex_state 6 1) []) \<and>
   \<not> isl (Update ex_enc
       (ReportConflictingVotes ex_hist_pool (Some (ex_vote 8 [1])) (Some (ex_vote 8 [2])))
       (ex_state 13 13000000000) []) \<and>
   isl (Update ex_enc
       (ReportConflictingVotes ex_hist_pool (Some (ex_vote 8 [1])) None)
       (ex_state 13 13000000000) [])"
  using Update_panics_iff_height_or_nil [of ex_enc "ex_pool [] [] (ex_state 5 0)" "ex_state 5 1" "[]"]
    Update_panics_iff_height_or_nil [of ex_enc "ex_pool [] [] (ex_state 5 0)" "ex_state 4 1" "[]"]
    Update_panics_iff_height_or_nil [of ex_enc "ex_pool [] [] (ex_state 5 0)" "ex_state 6 1" "[]"]
    Update_panics_iff_height_or_nil
      [of ex_enc "ReportConflictingVotes ex_hist_pool (Some (ex_vote 8 [1])) (Some (ex_vote 8 [2]))"
          "ex_state 13 13000000000" "[]"]
    Update_panics_iff_height_or_nil
      [of ex_enc "ReportConflictingVotes ex_hist_pool (Some (ex_vote 8 [1])) None"
          "ex_state 13 13000000000" "[]"]
  by (simp add: ex_pool_def ex_hist_pool_def ex_state_def ex_vote_def ex_enc_def word_sle_eq
      word_sless_alt ReportConflictingVotes_def nil_dereference_def formDuplicateVoteEvidence_def
      NewDuplicateVoteEvidence_def)

text \<open>
  The claim as stated has \<open>Update\<close> panic only when the height does not grow. A pair of
  \<^verbatim>\<open>nil\<close> votes reported by \<open>ReportConflictingVotes\<close> makes the next \<open>Update\<close> panic at
  a strictly greater height: the loop reads \<^verbatim>\<open>voteSet.VoteA.Height\<close>.
\<close>

theorem Update_nil_vote_counterexample:
  "\<not> (isl (Update ex_enc (ReportConflictingVotes (ex_pool [] [] (ex_state 5 0)) None None)
            (ex_state 6 1) []) \<longleftrightarrow>
      LastBlockHeight (ex_state 6 1) \<le>s
        LastBlockHeight (state (ReportConflictingVotes (ex_pool [] [] (ex_state 5 0)) None None))) \<and>
   Update ex_enc (ReportConflictingVotes (ex_pool [] [] (ex_state 5 0)) None None)
     (ex_state 6 1) [] = Inl (Panic ''nil pointer dereference'')"
  by (simp add: Update_def processConsensusBuffer_def processConsensusBuffer_item_def
      ReportConflictingVotes_def ex_pool_def ex_state_def word_sle_eq)

subsection \<open>Store errors during reconciliation\<close>

lemma key_hash_keyPending [simp]: "key_hash (keyPending ev) = Hash ev"
  by (simp add: key_hash_def keyPending_def)

lemma isPending_mem:
  assumes "isPending q ev"
  shows "keyPending ev \<in> fst ` set (pending_entries q)"
proof -
  from assms obtain v where "map_of (db_data (evidenceStore q)) (keyPending ev) = Some v"
    by (auto simp: isPending_def db_Has_def split: if_splits)
  then have "(keyPending ev, v) \<in> set (pending_entries q)"
    by (simp add: pending_entries_def prefix_entries_mem keyPending_def)
  then show ?thesis by force
qed

lemma isPending_Set_committed:
  "isPending (q\<lparr>evidenceStore := fst (db_Set (evidenceStore q) (keyCommitted ev) v)\<rparr>) ev' =
     isPending q ev'"
  by (simp add: isPending_def db_Has_def db_Set_def update_conv')

lemma markEvidenceAsCommitted_loop_keeps:
  assumes "markEvidenceAsCommitted_loop h evs b m evpool = (b', m', p)"
  shows "evidenceList p = evidenceList evpool \<and> evidenceSize p = evidenceSize evpool \<and>
         db_fail (evidenceStore p) = db_fail (evidenceStore evpool) \<and>
         pending_entries p = pending_entries evpool \<and>
         state p = state evpool \<and> pruningHeight p = pruningHeight evpool \<and>
         pruningTime p = pruningTime evpool"
  using assms
proof (induction evs arbitrary: b m evpool)
  case Nil
  then show ?case by simp
next
  case (Cons ev evs)
  let ?d = "fst (db_Set (evidenceStore evpool) (keyCommitted ev) (Int64Bytes h))"
  let ?q = "evpool\<lparr>evidenceStore := ?d\<rparr>"
  have q: "evidenceList ?q = evidenceList evpool" "evidenceSize ?q = evidenceSize evpool"
    "db_fail (evidenceStore ?q) = db_fail (evidenceStore evpool)"
    "state ?q = state evpool" "pruningHeight ?q = pruningHeight evpool"
    "pruningTime ?q = pruningTime evpool"
    by (simp_all add: db_Set_def)
  have pe: "pending_entries ?q = pending_entries evpool"
    by (simp add: pending_entries_def db_Set_def prefix_entries_update_other keyCommitted_def
        prefixCommitted_def prefixPending_def)
  from Cons.prems obtain b1 m1 where
    "markEvidenceAsCommitted_loop h evs b1 m1 ?q = (b', m', p)"
    by (simp add: Let_def)
  from Cons.IH [OF this] show ?case using q pe by simp
qed

lemma markEvidenceAsCommitted_loop_maps:
  assumes "markEvidenceAsCommitted_loop h evs b m q = (b', m', p)"
  shows "set m' = set m \<union> evMapKey ` {ev \<in> set evs. isPending q ev} \<and>
         (distinct m \<longrightarrow> distinct m') \<and>
         set b' \<subseteq> set b \<union> keyPending ` {ev \<in> set evs. isPending q ev} \<and>
         ((\<forall>ev\<in>set evs. \<not> db_fail (evidenceStore q) (OpBatchDelete (keyPending ev))) \<longrightarrow>
            set b' = set b \<union> keyPending ` {ev \<in> set evs. isPending q ev})"
  using assms
proof (induction evs arbitrary: b m q)
  case Nil
  then show ?case by simp
next
  case (Cons ev evs)
  let ?d = "fst (db_Set (evidenceStore q) (keyCommitted ev) (Int64Bytes h))"
  let ?q = "q\<lparr>evidenceStore := ?d\<rparr>"
  let ?b1 = "if isPending q ev then fst (batch_Delete (evidenceStore q) b (keyPending ev)) else b"
  let ?m1 = "if isPending q ev then List.insert (evMapKey ev) m else m"
  have rec: "markEvidenceAsCommitted_loop h evs ?b1 ?m1 ?q = (b', m', p)"
    using Cons.prems by (simp add: Let_def)
  have pend: "isPending ?q ev' = isPending q ev'" for ev'
    by (rule isPending_Set_committed)
  have fail: "db_fail (evidenceStore ?q) = db_fail (evidenceStore q)"
    by (simp add: db_Set_def)
  note ih = Cons.IH [OF rec, unfolded pend fail]
  have m1: "set ?m1 = set m \<union> evMapKey ` {e \<in> {ev}. isPending q e}"
    by auto
  have dm1: "distinct m \<longrightarrow> distinct ?m1"
    by simp
  have b1: "set ?b1 \<subseteq> set b \<union> keyPending ` {e \<in> {ev}. isPending q e}"
    by (auto simp: batch_Delete_def)
  have b1': "set ?b1 = set b \<union> keyPending ` {e \<in> {ev}. isPending q e}"
    if "\<not> db_fail (evidenceStore q) (OpBatchDelete (keyPending ev))"
    using that by (auto simp: batch_Delete_def)
  have split: "{e \<in> set (ev # evs). isPending q e} =
      {e \<in> {ev}. isPending q e} \<union> {e \<in> set evs. isPending q e}"
    by auto
  have c1: "set m' = set m \<union> evMapKey ` {e \<in> set (ev # evs). isPending q e}"
    using ih m1 unfolding split image_Un by blast
  have c2: "distinct m \<longrightarrow> distinct m'"
    using ih dm1 by blast
  have c3: "set b' \<subseteq> set b \<union> keyPending ` {e \<in> set (ev # evs). isPending q e}"
    using ih b1 unfolding split image_Un by blast
  have c4: "set b' = set b \<union> keyPending ` {e \<in> set (ev # evs). isPending q e}"
    if "\<forall>e\<in>set (ev # evs). \<not> db_fail (evidenceStore q) (OpBatchDelete (keyPending e))"
  proof -
    have "set b' = set ?b1 \<union> keyPending ` {e \<in> set evs. isPending q e}"
      using ih that by simp
    moreover have "set ?b1 = set b \<union> keyPending ` {e \<in> {ev}. isPending q e}"
      using that by (intro b1') simp
    ultimately show ?thesis unfolding split image_Un by blast
  qed
  show ?case using c1 c2 c3 c4 by blast
qed

lemma removal_counts:
  assumes "distinct (map (key_hash \<circ> fst) pe)" "set b \<subseteq> fst ` set pe"
    and "distinct m" "set m = key_hash ` set b"
  shows "length (filter (\<lambda>kv. fst kv \<notin> set b) pe) + length m = length pe"
proof -
  let ?S = "{kv \<in> set pe. fst kv \<in> set b}"
  have inj: "inj_on (key_hash \<circ> fst) (set pe)" and dist: "distinct pe"
    using assms(1) by (simp_all add: distinct_map)
  have "(key_hash \<circ> fst) ` ?S = key_hash ` set b"
    using assms(2) by force
  then have "card (set m) = card ((key_hash \<circ> fst) ` ?S)"
    using assms(4) by simp
  also have "\<dots> = card ?S"
    by (rule card_image) (rule inj_on_subset [OF inj], simp)
  also have "\<dots> = length (filter (\<lambda>kv. fst kv \<in> set b) pe)"
    using dist by (simp add: distinct_card [symmetric] distinct_filter)
  finally have "length m = length (filter (\<lambda>kv. fst kv \<in> set b) pe)"
    using assms(3) by (simp add: distinct_card)
  then show ?thesis
    using sum_length_filter_compl [of "\<lambda>kv. fst kv \<in> set b" pe] by simp
qed

lemma removal_decode:
  assumes "distinct (map (key_hash \<circ> fst) pe)" "set b \<subseteq> fst ` set pe"
    and "set m = key_hash ` set b"
    and own: "\<forall>kv\<in>set pe. stored_under_own_key kv"
  shows "filter (\<lambda>ev. evMapKey ev \<notin> set m) (decode_entries pe) =
         decode_entries (filter (\<lambda>kv. fst kv \<notin> set b) pe)"
proof -
  have inj: "inj_on (key_hash \<circ> fst) (set pe)"
    using assms(1) by (simp add: distinct_map)
  have key: "evMapKey x \<in> set m \<longleftrightarrow> fst kv \<in> set b"
    if kv: "kv \<in> set pe" and x: "bytesToEv (snd kv) = Some x" for kv x
  proof
    have k: "keyPending x = fst kv"
      using own kv x by (auto simp: stored_under_own_key_def)
    then have h: "key_hash (fst kv) = Hash x"
      using key_hash_keyPending [of x] by simp
    show "evMapKey x \<in> set m" if "fst kv \<in> set b"
    proof -
      have "key_hash (fst kv) \<in> key_hash ` set b"
        using that by (rule imageI)
      then show ?thesis using h assms(3) by (simp add: evMapKey_def)
    qed
    show "fst kv \<in> set b" if "evMapKey x \<in> set m"
    proof -
      from that obtain k' where k': "k' \<in> set b" "key_hash k' = Hash x"
        using assms(3) by (auto simp: evMapKey_def)
      then obtain kv' where kv': "kv' \<in> set pe" "fst kv' = k'"
        using assms(2) by auto
      have eq: "(key_hash \<circ> fst) kv' = (key_hash \<circ> fst) kv"
        using k'(2) kv'(2) h by simp
      have "kv' = kv"
        by (rule inj_onD [OF inj eq kv'(1) kv])
      then show ?thesis using k'(1) kv'(2) by simp
    qed
  qed
  have "filter (\<lambda>ev. evMapKey ev \<notin> set m) (decode_entries xs) =
        decode_entries (filter (\<lambda>kv. fst kv \<notin> set b) xs)"
    if "set xs \<subseteq> set pe" for xs
    using that
  proof (induction xs)
    case Nil
    then show ?case by (simp add: decode_entries_def map_filter_simps)
  next
    case (Cons kv xs)
    then have kv: "kv \<in> set pe" and xs: "set xs \<subseteq> set pe" by simp_all
    note ih = Cons.IH [OF xs]
    show ?case
    proof (cases "bytesToEv (snd kv)")
      case None
      then show ?thesis using ih by (simp add: decode_entries_Cons)
    next
      case (Some x)
      then show ?thesis
        using ih key [OF kv Some] by (simp add: decode_entries_Cons)
    qed
  qed
  then show ?thesis by simp
qed

lemma removal_preserves:
  assumes b: "set b \<subseteq> fst ` set (pending_entries p)"
    and m: "distinct m" "set m = key_hash ` set b" "m \<noteq> []"
    and p': "p' = (removeEvidenceFromList
                   (p\<lparr>evidenceStore :=
                        (evidenceStore p)\<lparr>db_data := delete_keys b (db_data (evidenceStore p))\<rparr>\<rparr>) m)
                 \<lparr>evidenceSize := subSize (evidenceSize p) (length m)\<rparr>"
  shows "set (pending_entries p') \<subseteq> set (pending_entries p)"
    and "set (committed_entries p') \<subseteq> set (committed_entries p)"
    and "pending_well_formed p \<Longrightarrow> I2 p \<Longrightarrow> I2 p'"
    and "pending_well_formed p \<Longrightarrow> I3 p \<Longrightarrow> I3 p'"
proof -
  let ?pe = "pending_entries p"
  have pe': "pending_entries p' = filter (\<lambda>kv. fst kv \<notin> set b) ?pe"
    by (simp add: p' pending_entries_def removeEvidenceFromList_def prefix_entries_delete_keys)
  have ce': "committed_entries p' = filter (\<lambda>kv. fst kv \<notin> set b) (committed_entries p)"
    by (simp add: p' committed_entries_def removeEvidenceFromList_def prefix_entries_delete_keys)
  show "set (pending_entries p') \<subseteq> set ?pe"
    unfolding pe' by auto
  show "set (committed_entries p') \<subseteq> set (committed_entries p)"
    unfolding ce' by auto
  show "I2 p'" if wf: "pending_well_formed p" and i2: "I2 p"
  proof -
    have dist: "distinct (map (key_hash \<circ> fst) ?pe)"
      and own: "\<forall>kv\<in>set ?pe. stored_under_own_key kv"
      using wf by (simp_all add: pending_well_formed_def list_all_iff)
    have "mset (evidenceList p') =
          filter_mset (\<lambda>ev. evMapKey ev \<notin> set m) (mset (evidenceList p))"
      by (simp add: p' removeEvidenceFromList_def)
    also have "\<dots> = mset (filter (\<lambda>ev. evMapKey ev \<notin> set m) (decode_entries ?pe))"
      using i2 by (simp add: I2_def pending_evidence_def)
    also have "\<dots> = mset (decode_entries (filter (\<lambda>kv. fst kv \<notin> set b) ?pe))"
      using removal_decode [OF dist b m(2) own] by simp
    finally show ?thesis
      by (simp add: I2_def pending_evidence_def pe')
  qed
  show "I3 p'" if wf: "pending_well_formed p" and i3: "I3 p"
  proof -
    have dist: "distinct (map (key_hash \<circ> fst) ?pe)"
      using wf by (simp add: pending_well_formed_def)
    note cnt = removal_counts [OF dist b m(1,2)]
    have one: "1 \<le> length m" using m(3) by (cases m) simp_all
    have le: "length m \<le> unat (evidenceSize p)"
      using cnt i3 by (simp add: I3_def)
    have "unat (evidenceSize p') = unat (evidenceSize p) - length m"
      using unat_subSize_le [OF one le] by (simp add: p')
    then show ?thesis
      using cnt i3 by (simp add: I3_def pe')
  qed
qed

lemma markEvidenceAsCommitted_preserves:
  assumes wf: "pending_well_formed evpool"
    and del: "\<forall>ev\<in>set evs. \<not> db_fail (evidenceStore evpool) (OpBatchDelete (keyPending ev))"
  shows "(I2 evpool \<longrightarrow> I2 (markEvidenceAsCommitted evpool evs h)) \<and>
         (I3 evpool \<longrightarrow> I3 (markEvidenceAsCommitted evpool evs h))"
proof -
  obtain b m p where l: "markEvidenceAsCommitted_loop h evs [] [] evpool = (b, m, p)"
    by (cases "markEvidenceAsCommitted_loop h evs [] [] evpool")
  note k = markEvidenceAsCommitted_loop_keeps [OF l]
  note mp = markEvidenceAsCommitted_loop_maps [OF l]
  have same: "I2 p = I2 evpool" "I3 p = I3 evpool" "pending_well_formed p"
    using k wf by (simp_all add: I2_def I3_def pending_evidence_def pending_well_formed_def)
  show ?thesis
  proof (cases "m = [] \<or> db_fail (evidenceStore p) OpWriteSync")
    case True
    then have "markEvidenceAsCommitted evpool evs h = p"
      by (auto simp: markEvidenceAsCommitted_def l batch_WriteSync_def)
    then show ?thesis using same by simp
  next
    case False
    let ?p' = "(removeEvidenceFromList
                   (p\<lparr>evidenceStore :=
                        (evidenceStore p)\<lparr>db_data := delete_keys b (db_data (evidenceStore p))\<rparr>\<rparr>) m)
                 \<lparr>evidenceSize := subSize (evidenceSize p) (length m)\<rparr>"
    have res: "markEvidenceAsCommitted evpool evs h = ?p'"
      using False
      by (simp add: markEvidenceAsCommitted_def l batch_WriteSync_def Let_def
          removeEvidenceFromList_def)
    have bset: "set b = keyPending ` {ev \<in> set evs. isPending evpool ev}"
      using mp del by simp
    have mset: "set m = evMapKey ` {ev \<in> set evs. isPending evpool ev}"
      using mp by simp
    have b: "set b \<subseteq> fst ` set (pending_entries p)"
      unfolding bset using k isPending_mem [of evpool] by auto
    have m: "distinct m" "set m = key_hash ` set b" "m \<noteq> []"
      using mp False by (simp_all add: bset mset image_image evMapKey_def)
    show ?thesis
      using removal_preserves(3,4) [OF b m refl same(3)] same(1,2) unfolding res by blast
  qed
qed

lemma batchExpiredPendingEvidence_loop_sub:
  assumes "batchExpiredPendingEvidence_loop q it b m = (h, t, b', m')"
  shows "set b' \<subseteq> set b \<union> fst ` set it"
  using assms
proof (induction it arbitrary: b m)
  case Nil
  then show ?case by simp
next
  case (Cons kv it)
  from Cons.prems consider (stop) "b' = b"
    | (skip) "batchExpiredPendingEvidence_loop q it b m = (h, t, b', m')"
    | (add) x where "batchExpiredPendingEvidence_loop q it (b @ [fst kv])
        (List.insert (evMapKey x) m) = (h, t, b', m')"
    by (auto simp: batch_Delete_def split: option.splits if_splits)
  then show ?case
  proof cases
    case stop
    then show ?thesis by auto
  next
    case skip
    from Cons.IH [OF this] show ?thesis by auto
  next
    case add
    from Cons.IH [OF this] show ?thesis by auto
  qed
qed

lemma batchExpiredPendingEvidence_loop_maps:
  assumes "batchExpiredPendingEvidence_loop q it b m = (h, t, b', m')"
    and "\<forall>kv\<in>set it. stored_under_own_key kv"
    and "set m = key_hash ` set b" "distinct m"
  shows "set m' = key_hash ` set b' \<and> distinct m' \<and> set b' \<subseteq> set b \<union> fst ` set it"
  using assms
proof (induction it arbitrary: b m)
  case Nil
  then show ?case by simp
next
  case (Cons kv it)
  have own: "\<forall>kv\<in>set it. stored_under_own_key kv" using Cons.prems(2) by simp
  show ?case
  proof (cases "bytesToEv (snd kv)")
    case None
    then have "batchExpiredPendingEvidence_loop q it b m = (h, t, b', m')"
      using Cons.prems(1) by simp
    from Cons.IH [OF this own Cons.prems(3,4)] show ?thesis by auto
  next
    case (Some x)
    have hx: "key_hash (fst kv) = evMapKey x"
    proof -
      have "keyPending x = fst kv"
        using Cons.prems(2) Some by (simp add: stored_under_own_key_def)
      then show ?thesis
        using key_hash_keyPending [of x] by (simp add: evMapKey_def)
    qed
    show ?thesis
    proof (cases "isExpired q (Height x) (Time x)")
      case False
      then show ?thesis using Cons.prems Some by auto
    next
      case True
      show ?thesis
      proof (cases "db_fail (evidenceStore q) (OpBatchDelete (fst kv))")
        case True
        then have "batchExpiredPendingEvidence_loop q it b m = (h, t, b', m')"
          using Cons.prems(1) Some \<open>isExpired q (Height x) (Time x)\<close>
          by (simp add: batch_Delete_def)
        from Cons.IH [OF this own Cons.prems(3,4)] show ?thesis by auto
      next
        case False
        then have rec: "batchExpiredPendingEvidence_loop q it (b @ [fst kv])
            (List.insert (evMapKey x) m) = (h, t, b', m')"
          using Cons.prems(1) Some True by (simp add: batch_Delete_def)
        have s: "set (List.insert (evMapKey x) m) = key_hash ` set (b @ [fst kv])"
          using Cons.prems(3) hx by simp
        have d: "distinct (List.insert (evMapKey x) m)"
          using Cons.prems(4) by simp
        from Cons.IH [OF rec own s d] show ?thesis by auto
      qed
    qed
  qed
qed

lemma removeExpiredPendingEvidence_cases:
  "snd (removeExpiredPendingEvidence evpool) = evpool \<or>
   (\<exists>b m. set b \<subseteq> fst ` set (pending_entries evpool) \<and> m \<noteq> [] \<and>
      (list_all stored_under_own_key (pending_entries evpool) \<longrightarrow>
         distinct m \<and> set m = key_hash ` set b) \<and>
      snd (removeExpiredPendingEvidence evpool) =
        (removeEvidenceFromList
           (evpool\<lparr>evidenceStore :=
              (evidenceStore evpool)\<lparr>db_data := delete_keys b (db_data (evidenceStore evpool))\<rparr>\<rparr>) m)
        \<lparr>evidenceSize := subSize (evidenceSize evpool) (length m)\<rparr>)"
proof (cases "db_fail (evidenceStore evpool) (OpIterate prefixPending)")
  case True
  then show ?thesis
    by (simp add: removeExpiredPendingEvidence_def batchExpiredPendingEvidence_def
        IteratePrefix_def)
next
  case False
  let ?it = "pending_entries evpool"
  obtain h t b m where l: "batchExpiredPendingEvidence_loop evpool ?it [] [] = (h, t, b, m)"
    by (cases "batchExpiredPendingEvidence_loop evpool ?it [] []") auto
  have be: "batchExpiredPendingEvidence evpool [] = (h, t, b, m)"
    using False l
    by (simp add: batchExpiredPendingEvidence_def IteratePrefix_def pending_entries_def)
  show ?thesis
  proof (cases "m = [] \<or> db_fail (evidenceStore evpool) OpWriteSync")
    case True
    then show ?thesis
      by (auto simp: removeExpiredPendingEvidence_def be batch_WriteSync_def)
  next
    case False
    have sub: "set b \<subseteq> fst ` set ?it"
      using batchExpiredPendingEvidence_loop_sub [OF l] by simp
    have maps: "distinct m \<and> set m = key_hash ` set b"
      if "list_all stored_under_own_key ?it"
      using batchExpiredPendingEvidence_loop_maps [OF l] that by (simp add: list_all_iff)
    have res: "snd (removeExpiredPendingEvidence evpool) =
        (removeEvidenceFromList
           (evpool\<lparr>evidenceStore :=
              (evidenceStore evpool)\<lparr>db_data := delete_keys b (db_data (evidenceStore evpool))\<rparr>\<rparr>) m)
        \<lparr>evidenceSize := subSize (evidenceSize evpool) (length m)\<rparr>"
      using False
      by (simp add: removeExpiredPendingEvidence_def be batch_WriteSync_def Let_def
          removeEvidenceFromList_def)
    show ?thesis
      using sub maps res False by blast
  qed
qed

lemma markEvidenceAsCommitted_WriteSync_fails:
  assumes "db_fail (evidenceStore evpool) OpWriteSync"
  shows "markEvidenceAsCommitted evpool evs h =
           snd (snd (markEvidenceAsCommitted_loop h evs [] [] evpool))"
proof -
  obtain b m p where l: "markEvidenceAsCommitted_loop h evs [] [] evpool = (b, m, p)"
    by (cases "markEvidenceAsCommitted_loop h evs [] [] evpool")
  have "db_fail (evidenceStore p) OpWriteSync"
    using markEvidenceAsCommitted_loop_keeps [OF l] assms by simp
  then show ?thesis
    by (simp add: markEvidenceAsCommitted_def l batch_WriteSync_def)
qed

lemma removeExpiredPendingEvidence_WriteSync_fails:
  assumes "db_fail (evidenceStore evpool) OpWriteSync"
  shows "snd (removeExpiredPendingEvidence evpool) = evpool"
  using assms
  by (simp add: removeExpiredPendingEvidence_def batch_WriteSync_def split: prod.splits)

text \<open>
  C3 (as amended). The batch write failing: \<open>markEvidenceAsCommitted\<close> returns with the
  pending bucket, the broadcast list and the size counter unchanged, so I2 and I3 still
  hold, and \<open>removeExpiredPendingEvidence\<close> returns the pool unchanged. Any of \<^verbatim>\<open>Has\<close>,
  \<^verbatim>\<open>Set\<close> and the batch write failing in \<open>markEvidenceAsCommitted\<close>, and no
  \<^verbatim>\<open>batch.Delete\<close> of an item of the block failing: I2 and I3 still hold, for a well
  formed pending bucket. Any of the iterator, \<^verbatim>\<open>batch.Delete\<close> and the batch write failing
  in \<open>removeExpiredPendingEvidence\<close>: I1 still holds, and so do I2 and I3 for a well formed
  pending bucket. Nothing is said about I1 after \<open>markEvidenceAsCommitted\<close>, nor about a
  failing \<^verbatim>\<open>batch.Delete\<close> in it.
\<close>

theorem reconciliation_store_errors:
  "(db_fail (evidenceStore evpool) OpWriteSync \<longrightarrow>
      pending_entries (markEvidenceAsCommitted evpool evs h) = pending_entries evpool \<and>
      evidenceList (markEvidenceAsCommitted evpool evs h) = evidenceList evpool \<and>
      Size (markEvidenceAsCommitted evpool evs h) = Size evpool \<and>
      (I2 evpool \<longrightarrow> I2 (markEvidenceAsCommitted evpool evs h)) \<and>
      (I3 evpool \<longrightarrow> I3 (markEvidenceAsCommitted evpool evs h)) \<and>
      snd (removeExpiredPendingEvidence evpool) = evpool) \<and>
   (pending_well_formed evpool \<and>
    (\<forall>ev\<in>set evs. \<not> db_fail (evidenceStore evpool) (OpBatchDelete (keyPending ev))) \<longrightarrow>
      (I2 evpool \<longrightarrow> I2 (markEvidenceAsCommitted evpool evs h)) \<and>
      (I3 evpool \<longrightarrow> I3 (markEvidenceAsCommitted evpool evs h))) \<and>
   (I1 evpool \<longrightarrow> I1 (snd (removeExpiredPendingEvidence evpool))) \<and>
   (pending_well_formed evpool \<longrightarrow>
      (I2 evpool \<longrightarrow> I2 (snd (removeExpiredPendingEvidence evpool))) \<and>
      (I3 evpool \<longrightarrow> I3 (snd (removeExpiredPendingEvidence evpool))))"
proof (intro conjI impI)
  obtain b m p where l: "markEvidenceAsCommitted_loop h evs [] [] evpool = (b, m, p)"
    by (cases "markEvidenceAsCommitted_loop h evs [] [] evpool")
  note k = markEvidenceAsCommitted_loop_keeps [OF l]
  {
    assume ws: "db_fail (evidenceStore evpool) OpWriteSync"
    have mark: "markEvidenceAsCommitted evpool evs h = p"
      using markEvidenceAsCommitted_WriteSync_fails [OF ws, of evs h] l by simp
    show "pending_entries (markEvidenceAsCommitted evpool evs h) = pending_entries evpool"
      using k by (simp add: mark)
    show "evidenceList (markEvidenceAsCommitted evpool evs h) = evidenceList evpool"
      using k by (simp add: mark)
    show "Size (markEvidenceAsCommitted evpool evs h) = Size evpool"
      using k by (simp add: mark Size_def)
    show "I2 (markEvidenceAsCommitted evpool evs h)" if "I2 evpool"
      using k that by (simp add: mark I2_def pending_evidence_def)
    show "I3 (markEvidenceAsCommitted evpool evs h)" if "I3 evpool"
      using k that by (simp add: mark I3_def)
    show "snd (removeExpiredPendingEvidence evpool) = evpool"
      using ws by (rule removeExpiredPendingEvidence_WriteSync_fails)
  }
  {
    assume h: "pending_well_formed evpool \<and>
      (\<forall>ev\<in>set evs. \<not> db_fail (evidenceStore evpool) (OpBatchDelete (keyPending ev)))"
    then have wf: "pending_well_formed evpool"
      and del: "\<forall>ev\<in>set evs. \<not> db_fail (evidenceStore evpool) (OpBatchDelete (keyPending ev))"
      by simp_all
    show "I2 (markEvidenceAsCommitted evpool evs h)" if "I2 evpool"
      using markEvidenceAsCommitted_preserves [OF wf del, of h] that by simp
    show "I3 (markEvidenceAsCommitted evpool evs h)" if "I3 evpool"
      using markEvidenceAsCommitted_preserves [OF wf del, of h] that by simp
  }
  note c = removeExpiredPendingEvidence_cases [of evpool]
  show "I1 (snd (removeExpiredPendingEvidence evpool))" if i1: "I1 evpool"
    using c
  proof
    assume "snd (removeExpiredPendingEvidence evpool) = evpool"
    then show ?thesis using i1 by simp
  next
    assume "\<exists>b m. set b \<subseteq> fst ` set (pending_entries evpool) \<and> m \<noteq> [] \<and>
      (list_all stored_under_own_key (pending_entries evpool) \<longrightarrow>
         distinct m \<and> set m = key_hash ` set b) \<and>
      snd (removeExpiredPendingEvidence evpool) =
        (removeEvidenceFromList
           (evpool\<lparr>evidenceStore :=
              (evidenceStore evpool)\<lparr>db_data := delete_keys b (db_data (evidenceStore evpool))\<rparr>\<rparr>) m)
        \<lparr>evidenceSize := subSize (evidenceSize evpool) (length m)\<rparr>"
    then obtain b m where bm:
      "snd (removeExpiredPendingEvidence evpool) =
        (removeEvidenceFromList
           (evpool\<lparr>evidenceStore :=
              (evidenceStore evpool)\<lparr>db_data := delete_keys b (db_data (evidenceStore evpool))\<rparr>\<rparr>) m)
        \<lparr>evidenceSize := subSize (evidenceSize evpool) (length m)\<rparr>"
      by blast
    let ?p' = "snd (removeExpiredPendingEvidence evpool)"
    have pe: "pending_entries ?p' = filter (\<lambda>kv. fst kv \<notin> set b) (pending_entries evpool)"
      unfolding bm
      by (simp add: pending_entries_def removeEvidenceFromList_def prefix_entries_delete_keys)
    have ce: "committed_entries ?p' = filter (\<lambda>kv. fst kv \<notin> set b) (committed_entries evpool)"
      unfolding bm
      by (simp add: committed_entries_def removeEvidenceFromList_def prefix_entries_delete_keys)
    show ?thesis
      using i1 unfolding I1_def pe ce by auto
  qed
  {
    assume wf: "pending_well_formed evpool"
    then have own: "list_all stored_under_own_key (pending_entries evpool)"
      by (simp add: pending_well_formed_def)
    show "I2 (snd (removeExpiredPendingEvidence evpool))" if i2: "I2 evpool"
      using c
    proof
      assume "snd (removeExpiredPendingEvidence evpool) = evpool"
      then show ?thesis using i2 by simp
    next
      assume "\<exists>b m. set b \<subseteq> fst ` set (pending_entries evpool) \<and> m \<noteq> [] \<and>
        (list_all stored_under_own_key (pending_entries evpool) \<longrightarrow>
           distinct m \<and> set m = key_hash ` set b) \<and>
        snd (removeExpiredPendingEvidence evpool) =
          (removeEvidenceFromList
             (evpool\<lparr>evidenceStore :=
                (evidenceStore evpool)\<lparr>db_data := delete_keys b (db_data (evidenceStore evpool))\<rparr>\<rparr>) m)
          \<lparr>evidenceSize := subSize (evidenceSize evpool) (length m)\<rparr>"
      then obtain b m where bm: "set b \<subseteq> fst ` set (pending_entries evpool)" "m \<noteq> []"
        "distinct m" "set m = key_hash ` set b"
        "snd (removeExpiredPendingEvidence evpool) =
          (removeEvidenceFromList
             (evpool\<lparr>evidenceStore :=
                (evidenceStore evpool)\<lparr>db_data := delete_keys b (db_data (evidenceStore evpool))\<rparr>\<rparr>) m)
          \<lparr>evidenceSize := subSize (evidenceSize evpool) (length m)\<rparr>"
        using own by blast
      show ?thesis
        using removal_preserves(3) [OF bm(1,3,4,2,5) wf i2] .
    qed
    show "I3 (snd (removeExpiredPendingEvidence evpool))" if i3: "I3 evpool"
      using c
    proof
      assume "snd (removeExpiredPendingEvidence evpool) = evpool"
      then show ?thesis using i3 by simp
    next
      assume "\<exists>b m. set b \<subseteq> fst ` set (pending_entries evpool) \<and> m \<noteq> [] \<and>
        (list_all stored_under_own_key (pending_entries evpool) \<longrightarrow>
           distinct m \<and> set m = key_hash ` set b) \<and>
        snd (removeExpiredPendingEvidence evpool) =
          (removeEvidenceFromList
             (evpool\<lparr>evidenceStore :=
                (evidenceStore evpool)\<lparr>db_data := delete_keys b (db_data (evidenceStore evpool))\<rparr>\<rparr>) m)
          \<lparr>evidenceSize := subSize (evidenceSize evpool) (length m)\<rparr>"
      then obtain b m where bm: "set b \<subseteq> fst ` set (pending_entries evpool)" "m \<noteq> []"
        "distinct m" "set m = key_hash ` set b"
        "snd (removeExpiredPendingEvidence evpool) =
          (removeEvidenceFromList
             (evpool\<lparr>evidenceStore :=
                (evidenceStore evpool)\<lparr>db_data := delete_keys b (db_data (evidenceStore evpool))\<rparr>\<rparr>) m)
          \<lparr>evidenceSize := subSize (evidenceSize evpool) (length m)\<rparr>"
        using own by blast
      show ?thesis
        using removal_preserves(4) [OF bm(1,3,4,2,5) wf i3] .
    qed
  }
qed

theorem reconciliation_store_errors_witness:
  "pending_well_formed ex_writesync_fails \<and>
   I1 ex_writesync_fails \<and> I2 ex_writesync_fails \<and> I3 ex_writesync_fails \<and>
   marked_hashes ex_writesync_fails [ex_evidence 5 0 [1] 10] 21 = [[1]] \<and>
   expired_hashes ex_writesync_fails = [[1]] \<and>
   I2 (markEvidenceAsCommitted ex_writesync_fails [ex_evidence 5 0 [1] 10] 21) \<and>
   I3 (markEvidenceAsCommitted ex_writesync_fails [ex_evidence 5 0 [1] 10] 21) \<and>
   Size (markEvidenceAsCommitted ex_writesync_fails [ex_evidence 5 0 [1] 10] 21) = 1 \<and>
   snd (removeExpiredPendingEvidence ex_writesync_fails) = ex_writesync_fails \<and>
   I1 (snd (removeExpiredPendingEvidence ex_writesync_fails)) \<and>
   I2 (snd (removeExpiredPendingEvidence ex_writesync_fails)) \<and>
   I3 (snd (removeExpiredPendingEvidence ex_writesync_fails)) \<and>
   pending_well_formed ex_set_fails \<and> I2 ex_set_fails \<and> I3 ex_set_fails \<and>
   I2 (markEvidenceAsCommitted ex_set_fails [ex_evidence 5 0 [1] 10] 21) \<and>
   I3 (markEvidenceAsCommitted ex_set_fails [ex_evidence 5 0 [1] 10] 21) \<and>
   Size (markEvidenceAsCommitted ex_set_fails [ex_evidence 5 0 [1] 10] 21) = 0 \<and>
   \<not> isCommitted (markEvidenceAsCommitted ex_set_fails [ex_evidence 5 0 [1] 10] 21)
       (ex_evidence 5 0 [1] 10) \<and>
   I2 (snd (removeExpiredPendingEvidence ex_set_fails)) \<and>
   I3 (snd (removeExpiredPendingEvidence ex_set_fails))"
proof -
  let ?e = "ex_evidence 5 0 [1] 10"
  have pe: "pending_entries ex_writesync_fails = [(keyPending ?e, EvidenceBytes ?e)]"
    "pending_entries ex_set_fails = [(keyPending ?e, EvidenceBytes ?e)]"
    by (simp_all add: pending_entries_def ex_writesync_fails_def ex_set_fails_def ex_stale_def
        ex_pool_def prefix_entries_def ordered_keys_def keyPending_def map_filter_simps)
  have ce: "committed_entries ex_writesync_fails = []"
    by (simp add: committed_entries_def ex_writesync_fails_def ex_stale_def ex_pool_def
        prefix_entries_def ordered_keys_def keyPending_def map_filter_simps prefixPending_def
        prefixCommitted_def)
  have wf: "pending_well_formed ex_writesync_fails" "pending_well_formed ex_set_fails"
    by (simp_all add: pending_well_formed_def pe stored_under_own_key_def bytesToEv_def
        Evidence_Unmarshal_def EvidenceFromProto_def)
  have inv: "I1 ex_writesync_fails" "I2 ex_writesync_fails" "I3 ex_writesync_fails"
    "I2 ex_set_fails" "I3 ex_set_fails"
    by (simp_all add: I1_def I2_def I3_def pending_evidence_def decode_entries_def pe ce
        map_filter_simps bytesToEv_def Evidence_Unmarshal_def EvidenceFromProto_def)
      (simp_all add: ex_writesync_fails_def ex_set_fails_def ex_stale_def ex_pool_def)
  have ws: "db_fail (evidenceStore ex_writesync_fails) OpWriteSync"
    by (simp add: ex_writesync_fails_def)
  have del: "\<not> db_fail (evidenceStore ex_writesync_fails) (OpBatchDelete (keyPending ?e))"
    "\<not> db_fail (evidenceStore ex_set_fails) (OpBatchDelete (keyPending ?e))"
    by (simp_all add: ex_writesync_fails_def ex_set_fails_def)
  have reached: "marked_hashes ex_writesync_fails [?e] 21 = [[1]]"
    "expired_hashes ex_writesync_fails = [[1]]"
    by (simp_all add: marked_hashes_def expired_hashes_def ex_writesync_fails_def pool_eval)
  have sz: "Size ex_writesync_fails = 1"
    by (simp add: ex_writesync_fails_def pool_eval)
  have set_fails: "Size (markEvidenceAsCommitted ex_set_fails [?e] 21) = 0"
    "\<not> isCommitted (markEvidenceAsCommitted ex_set_fails [?e] 21) ?e"
    by (simp_all add: ex_set_fails_def isCommitted_def pool_eval)
  show ?thesis
    using reconciliation_store_errors [of ex_writesync_fails "[?e]" 21]
      reconciliation_store_errors [of ex_set_fails "[?e]" 21]
      wf inv ws del reached sz set_fails
    by simp
qed

text \<open>
  The claim as stated keeps I1 as well. \<open>markEvidenceAsCommitted\<close> writes the committed
  marker to the store at once and only the removal from the pending bucket goes through
  the batch: when the batch write fails, the item is both pending and committed.
\<close>

theorem reconciliation_store_errors_counterexample:
  "I1 ex_writesync_fails \<and> I2 ex_writesync_fails \<and> I3 ex_writesync_fails \<and>
   \<not> I1 (markEvidenceAsCommitted ex_writesync_fails [ex_evidence 5 0 [1] 10] 21) \<and>
   map_of (db_data (evidenceStore
       (markEvidenceAsCommitted ex_writesync_fails [ex_evidence 5 0 [1] 10] 21)))
     (keyPending (ex_evidence 5 0 [1] 10)) \<noteq> None \<and>
   map_of (db_data (evidenceStore
       (markEvidenceAsCommitted ex_writesync_fails [ex_evidence 5 0 [1] 10] 21)))
     (keyCommitted (ex_evidence 5 0 [1] 10)) \<noteq> None"
proof -
  let ?e = "ex_evidence 5 0 [1] 10"
  have pe: "pending_entries ex_writesync_fails = [(keyPending ?e, EvidenceBytes ?e)]"
    by (simp add: pending_entries_def ex_writesync_fails_def ex_stale_def ex_pool_def
        prefix_entries_def ordered_keys_def keyPending_def map_filter_simps)
  have ce: "committed_entries ex_writesync_fails = []"
    by (simp add: committed_entries_def ex_writesync_fails_def ex_stale_def ex_pool_def
        prefix_entries_def ordered_keys_def keyPending_def map_filter_simps prefixPending_def
        prefixCommitted_def)
  have before: "I1 ex_writesync_fails" "I2 ex_writesync_fails" "I3 ex_writesync_fails"
    by (simp_all add: I1_def I2_def I3_def pending_evidence_def decode_entries_def pe ce
        map_filter_simps bytesToEv_def Evidence_Unmarshal_def EvidenceFromProto_def)
      (simp_all add: ex_writesync_fails_def ex_stale_def ex_pool_def)
  have after: "db_data (evidenceStore (markEvidenceAsCommitted ex_writesync_fails [?e] 21)) =
     [(keyPending ?e, EvidenceBytes ?e), (keyCommitted ?e, Int64Bytes 21)]"
    by (simp add: markEvidenceAsCommitted_def ex_writesync_fails_def ex_stale_def ex_pool_def
        isPending_def db_Has_def batch_Delete_def db_Set_def batch_WriteSync_def Let_def)
  have "\<not> I1 (markEvidenceAsCommitted ex_writesync_fails [?e] 21)"
    by (simp add: I1_def pending_entries_def committed_entries_def after prefix_entries_def
        ordered_keys_def keyPending_def keyCommitted_def prefixPending_def prefixCommitted_def
        key_order_def map_filter_simps key_hash_def)
  then show ?thesis
    using before by (simp add: after)
qed

subsection \<open>The decrement of the size counter\<close>

lemma subSize_wraps:
  assumes "1 \<le> n"
  shows "subSize sz n = sz - word_of_nat n \<and>
         (unat sz < n \<and> n < 2 ^ 32 \<longrightarrow>
            unat (subSize sz n) = 2 ^ 32 + unat sz - n \<and> 0 < unat (subSize sz n))"
proof (intro conjI impI)
  show "subSize sz n = sz - word_of_nat n"
    using assms by (rule subSize_eq)
next
  assume h: "unat sz < n \<and> n < 2 ^ 32"
  then show "unat (subSize sz n) = 2 ^ 32 + unat sz - n"
    using assms by (simp add: unat_subSize_wrap)
  then show "0 < unat (subSize sz n)"
    using h by simp
qed

lemma Size_markEvidenceAsCommitted:
  assumes "marked_hashes evpool evs h \<noteq> []" "\<not> db_fail (evidenceStore evpool) OpWriteSync"
  shows "Size (markEvidenceAsCommitted evpool evs h) =
           subSize (Size evpool) (length (marked_hashes evpool evs h))"
proof -
  obtain b m p where l: "markEvidenceAsCommitted_loop h evs [] [] evpool = (b, m, p)"
    by (cases "markEvidenceAsCommitted_loop h evs [] [] evpool")
  note k = markEvidenceAsCommitted_loop_keeps [OF l]
  have m: "marked_hashes evpool evs h = m"
    by (simp add: marked_hashes_def l)
  have "\<not> db_fail (evidenceStore p) OpWriteSync"
    using k assms(2) by simp
  then show ?thesis
    using assms(1) k unfolding m
    by (simp add: markEvidenceAsCommitted_def l batch_WriteSync_def Let_def
        removeEvidenceFromList_def Size_def)
qed

lemma length_marked_hashes:
  "length (marked_hashes evpool evs h) = card (evMapKey ` {ev \<in> set evs. isPending evpool ev})"
proof -
  obtain b m p where l: "markEvidenceAsCommitted_loop h evs [] [] evpool = (b, m, p)"
    by (cases "markEvidenceAsCommitted_loop h evs [] [] evpool")
  note mp = markEvidenceAsCommitted_loop_maps [OF l]
  have "distinct m" "set m = evMapKey ` {ev \<in> set evs. isPending evpool ev}"
    using mp by simp_all
  then have "length m = card (evMapKey ` {ev \<in> set evs. isPending evpool ev})"
    using distinct_card [of m] by simp
  then show ?thesis by (simp add: marked_hashes_def l)
qed

lemma Size_removeExpiredPendingEvidence:
  assumes "expired_hashes evpool \<noteq> []" "\<not> db_fail (evidenceStore evpool) OpWriteSync"
  shows "Size (snd (removeExpiredPendingEvidence evpool)) =
           subSize (Size evpool) (length (expired_hashes evpool))"
proof -
  obtain h t b m where be: "batchExpiredPendingEvidence evpool [] = (h, t, b, m)"
    by (cases "batchExpiredPendingEvidence evpool []") auto
  have m: "expired_hashes evpool = m"
    by (simp add: expired_hashes_def be)
  show ?thesis
    using assms unfolding m
    by (simp add: removeExpiredPendingEvidence_def be batch_WriteSync_def Let_def
        removeEvidenceFromList_def Size_def)
qed

text \<open>
  C10. Adding the complement \<^verbatim>\<open>^uint32(n-1)\<close> to the size counter subtracts \<open>n\<close>
  modulo \<open>2 ^ 32\<close>, for every \<open>n \<ge> 1\<close>; when \<open>n\<close> exceeds the counter the result wraps
  around to \<open>2 ^ 32 + counter - n\<close> and does not stop at zero. This is what
  \<open>markEvidenceAsCommitted\<close> and \<open>removeExpiredPendingEvidence\<close> do to \<open>Size\<close> when the map
  of hashes is not empty and the batch write succeeds, with \<open>n\<close> the number of hashes in
  the map: for \<open>markEvidenceAsCommitted\<close>, the number of hashes of the pending items of the
  block.
\<close>

theorem size_decrement_is_modular_subtraction:
  "(1 \<le> n \<longrightarrow>
      subSize sz n = sz - word_of_nat n \<and>
      (unat sz < n \<and> n < 2 ^ 32 \<longrightarrow>
         unat (subSize sz n) = 2 ^ 32 + unat sz - n \<and> 0 < unat (subSize sz n))) \<and>
   length (marked_hashes evpool evs h) =
     card (evMapKey ` {ev \<in> set evs. isPending evpool ev}) \<and>
   (marked_hashes evpool evs h \<noteq> [] \<and> \<not> db_fail (evidenceStore evpool) OpWriteSync \<longrightarrow>
      Size (markEvidenceAsCommitted evpool evs h) =
        subSize (Size evpool) (length (marked_hashes evpool evs h)) \<and>
      Size (markEvidenceAsCommitted evpool evs h) =
        Size evpool - word_of_nat (length (marked_hashes evpool evs h)) \<and>
      (unat (Size evpool) < length (marked_hashes evpool evs h) \<and>
       length (marked_hashes evpool evs h) < 2 ^ 32 \<longrightarrow>
         unat (Size (markEvidenceAsCommitted evpool evs h)) =
           2 ^ 32 + unat (Size evpool) - length (marked_hashes evpool evs h) \<and>
         0 < unat (Size (markEvidenceAsCommitted evpool evs h)))) \<and>
   (expired_hashes evpool \<noteq> [] \<and> \<not> db_fail (evidenceStore evpool) OpWriteSync \<longrightarrow>
      Size (snd (removeExpiredPendingEvidence evpool)) =
        subSize (Size evpool) (length (expired_hashes evpool)) \<and>
      Size (snd (removeExpiredPendingEvidence evpool)) =
        Size evpool - word_of_nat (length (expired_hashes evpool)) \<and>
      (unat (Size evpool) < length (expired_hashes evpool) \<and>
       length (expired_hashes evpool) < 2 ^ 32 \<longrightarrow>
         unat (Size (snd (removeExpiredPendingEvidence evpool))) =
           2 ^ 32 + unat (Size evpool) - length (expired_hashes evpool) \<and>
         0 < unat (Size (snd (removeExpiredPendingEvidence evpool)))))"
proof (intro conjI)
  show "1 \<le> n \<longrightarrow>
      subSize sz n = sz - word_of_nat n \<and>
      (unat sz < n \<and> n < 2 ^ 32 \<longrightarrow>
         unat (subSize sz n) = 2 ^ 32 + unat sz - n \<and> 0 < unat (subSize sz n))"
    using subSize_wraps [of n sz] by blast
  show "length (marked_hashes evpool evs h) =
     card (evMapKey ` {ev \<in> set evs. isPending evpool ev})"
    by (rule length_marked_hashes)
  show "marked_hashes evpool evs h \<noteq> [] \<and> \<not> db_fail (evidenceStore evpool) OpWriteSync \<longrightarrow>
      Size (markEvidenceAsCommitted evpool evs h) =
        subSize (Size evpool) (length (marked_hashes evpool evs h)) \<and>
      Size (markEvidenceAsCommitted evpool evs h) =
        Size evpool - word_of_nat (length (marked_hashes evpool evs h)) \<and>
      (unat (Size evpool) < length (marked_hashes evpool evs h) \<and>
       length (marked_hashes evpool evs h) < 2 ^ 32 \<longrightarrow>
         unat (Size (markEvidenceAsCommitted evpool evs h)) =
           2 ^ 32 + unat (Size evpool) - length (marked_hashes evpool evs h) \<and>
         0 < unat (Size (markEvidenceAsCommitted evpool evs h)))"
  proof
    assume a: "marked_hashes evpool evs h \<noteq> [] \<and> \<not> db_fail (evidenceStore evpool) OpWriteSync"
    then have one: "1 \<le> length (marked_hashes evpool evs h)"
      by (cases "marked_hashes evpool evs h") simp_all
    have eq: "Size (markEvidenceAsCommitted evpool evs h) =
        subSize (Size evpool) (length (marked_hashes evpool evs h))"
      using a by (intro Size_markEvidenceAsCommitted) simp_all
    show "Size (markEvidenceAsCommitted evpool evs h) =
        subSize (Size evpool) (length (marked_hashes evpool evs h)) \<and>
      Size (markEvidenceAsCommitted evpool evs h) =
        Size evpool - word_of_nat (length (marked_hashes evpool evs h)) \<and>
      (unat (Size evpool) < length (marked_hashes evpool evs h) \<and>
       length (marked_hashes evpool evs h) < 2 ^ 32 \<longrightarrow>
         unat (Size (markEvidenceAsCommitted evpool evs h)) =
           2 ^ 32 + unat (Size evpool) - length (marked_hashes evpool evs h) \<and>
         0 < unat (Size (markEvidenceAsCommitted evpool evs h)))"
      unfolding eq using subSize_wraps [OF one, of "Size evpool"] by blast
  qed
  show "expired_hashes evpool \<noteq> [] \<and> \<not> db_fail (evidenceStore evpool) OpWriteSync \<longrightarrow>
      Size (snd (removeExpiredPendingEvidence evpool)) =
        subSize (Size evpool) (length (expired_hashes evpool)) \<and>
      Size (snd (removeExpiredPendingEvidence evpool)) =
        Size evpool - word_of_nat (length (expired_hashes evpool)) \<and>
      (unat (Size evpool) < length (expired_hashes evpool) \<and>
       length (expired_hashes evpool) < 2 ^ 32 \<longrightarrow>
         unat (Size (snd (removeExpiredPendingEvidence evpool))) =
           2 ^ 32 + unat (Size evpool) - length (expired_hashes evpool) \<and>
         0 < unat (Size (snd (removeExpiredPendingEvidence evpool))))"
  proof
    assume a: "expired_hashes evpool \<noteq> [] \<and> \<not> db_fail (evidenceStore evpool) OpWriteSync"
    then have one: "1 \<le> length (expired_hashes evpool)"
      by (cases "expired_hashes evpool") simp_all
    have eq: "Size (snd (removeExpiredPendingEvidence evpool)) =
        subSize (Size evpool) (length (expired_hashes evpool))"
      using a by (intro Size_removeExpiredPendingEvidence) simp_all
    show "Size (snd (removeExpiredPendingEvidence evpool)) =
        subSize (Size evpool) (length (expired_hashes evpool)) \<and>
      Size (snd (removeExpiredPendingEvidence evpool)) =
        Size evpool - word_of_nat (length (expired_hashes evpool)) \<and>
      (unat (Size evpool) < length (expired_hashes evpool) \<and>
       length (expired_hashes evpool) < 2 ^ 32 \<longrightarrow>
         unat (Size (snd (removeExpiredPendingEvidence evpool))) =
           2 ^ 32 + unat (Size evpool) - length (expired_hashes evpool) \<and>
         0 < unat (Size (snd (removeExpiredPendingEvidence evpool))))"
      unfolding eq using subSize_wraps [OF one, of "Size evpool"] by blast
  qed
qed

theorem size_decrement_is_modular_subtraction_witness:
  "subSize 1 3 = 1 - word_of_nat 3 \<and> unat (subSize 1 3) = 4294967294 \<and>
   Size ex_undercounted = 0 \<and>
   isPending ex_undercounted (ex_evidence 5 0 [1] 10) \<and>
   marked_hashes ex_undercounted [ex_evidence 5 0 [1] 10] 21 = [[1]] \<and>
   Size (markEvidenceAsCommitted ex_undercounted [ex_evidence 5 0 [1] 10] 21) = 4294967295 \<and>
   expired_hashes ex_undercounted = [[1]] \<and>
   Size (snd (removeExpiredPendingEvidence ex_undercounted)) = 4294967295"
proof -
  have m: "marked_hashes ex_undercounted [ex_evidence 5 0 [1] 10] 21 = [[1]]"
    "expired_hashes ex_undercounted = [[1]]"
    by (simp_all add: marked_hashes_def expired_hashes_def ex_undercounted_def pool_eval)
  have s: "Size ex_undercounted = 0" "isPending ex_undercounted (ex_evidence 5 0 [1] 10)"
    "\<not> db_fail (evidenceStore ex_undercounted) OpWriteSync"
    by (simp_all add: ex_undercounted_def pool_eval)
  note t = size_decrement_is_modular_subtraction
      [of 3 1 ex_undercounted "[ex_evidence 5 0 [1] 10]" 21]
  have a: "subSize 1 3 = 1 - word_of_nat 3 \<and> unat (subSize 1 3) = 4294967294"
    using t [THEN conjunct1] by simp
  have b: "Size (markEvidenceAsCommitted ex_undercounted [ex_evidence 5 0 [1] 10] 21) =
             4294967295 \<and>
           Size (snd (removeExpiredPendingEvidence ex_undercounted)) = 4294967295"
    using t [THEN conjunct2, THEN conjunct2] by (simp add: m s subSize_def)
  show ?thesis
    using a b m s by simp
qed

subsection \<open>Pruning in Update\<close>

lemma batchExpiredPendingEvidence_loop_mono:
  assumes "batchExpiredPendingEvidence_loop q it b m = (h, t, b', m')"
  shows "set b \<subseteq> set b' \<and> (m \<noteq> [] \<longrightarrow> m' \<noteq> [])"
  using assms
proof (induction it arbitrary: b m)
  case Nil
  then show ?case by simp
next
  case (Cons kv it)
  show ?case
  proof (cases "bytesToEv (snd kv)")
    case None
    then show ?thesis using Cons by simp
  next
    case (Some x)
    show ?thesis
    proof (cases "isExpired q (Height x) (Time x)")
      case False
      then show ?thesis using Cons.prems Some by simp
    next
      case True
      show ?thesis
      proof (cases "db_fail (evidenceStore q) (OpBatchDelete (fst kv))")
        case True
        then have "batchExpiredPendingEvidence_loop q it b m = (h, t, b', m')"
          using Cons.prems Some \<open>isExpired q (Height x) (Time x)\<close>
          by (simp add: batch_Delete_def)
        then show ?thesis by (rule Cons.IH)
      next
        case False
        then have "batchExpiredPendingEvidence_loop q it (b @ [fst kv])
            (List.insert (evMapKey x) m) = (h, t, b', m')"
          using Cons.prems Some True by (simp add: batch_Delete_def)
        from Cons.IH [OF this] show ?thesis by (auto simp: insert_not_Nil)
      qed
    qed
  qed
qed

lemma batchExpiredPendingEvidence_loop_deletes:
  assumes "batchExpiredPendingEvidence_loop q it b m = (h, t, b', m')"
    and "db_fail (evidenceStore q) = no_fault"
    and "sorted (map key_order (map fst it))"
    and "\<forall>kv\<in>set it. key_order (fst kv) \<le> c \<longrightarrow> expired_entry q kv"
  shows "(\<forall>kv\<in>set it. key_order (fst kv) \<le> c \<longrightarrow> fst kv \<in> set b') \<and>
         ((\<exists>kv\<in>set it. key_order (fst kv) \<le> c) \<longrightarrow> m' \<noteq> [])"
  using assms
proof (induction it arbitrary: b m)
  case Nil
  then show ?case by simp
next
  case (Cons kv it)
  show ?case
  proof (cases "key_order (fst kv) \<le> c")
    case False
    have "\<not> key_order (fst kv') \<le> c" if "kv' \<in> set it" for kv'
    proof -
      have "key_order (fst kv) \<le> key_order (fst kv')"
        using Cons.prems(3) that by auto
      then show ?thesis using False by auto
    qed
    then show ?thesis using False by auto
  next
    case True
    then have "expired_entry q kv" using Cons.prems(4) by simp
    then obtain x where x: "bytesToEv (snd kv) = Some x" "isExpired q (Height x) (Time x)"
      by (auto simp: expired_entry_def split: option.splits)
    have rec: "batchExpiredPendingEvidence_loop q it (b @ [fst kv])
        (List.insert (evMapKey x) m) = (h, t, b', m')"
      using Cons.prems(1,2) x by (simp add: batch_Delete_def no_fault_def)
    have srt: "sorted (map key_order (map fst it))" using Cons.prems(3) by simp
    have hyp: "\<forall>kv\<in>set it. key_order (fst kv) \<le> c \<longrightarrow> expired_entry q kv"
      using Cons.prems(4) by simp
    note ih = Cons.IH [OF rec Cons.prems(2) srt hyp]
    note mono = batchExpiredPendingEvidence_loop_mono [OF rec]
    have "fst kv \<in> set b'" using mono by auto
    moreover have "m' \<noteq> []" using mono by (simp add: insert_not_Nil)
    ultimately show ?thesis using ih by auto
  qed
qed

lemma removeExpiredPendingEvidence_removes:
  assumes nf: "db_fail (evidenceStore q) = no_fault"
    and pre: "\<forall>kv\<in>set (pending_entries q).
                key_order (fst kv) \<le> key_order (keyPending e) \<longrightarrow> expired_entry q kv"
  shows "map_of (db_data (evidenceStore (snd (removeExpiredPendingEvidence q)))) (keyPending e) = None \<and>
         db_fail (evidenceStore (snd (removeExpiredPendingEvidence q))) = no_fault \<and>
         set (pending_entries (snd (removeExpiredPendingEvidence q))) \<subseteq> set (pending_entries q)"
proof -
  let ?it = "pending_entries q"
  obtain h t b m where l: "batchExpiredPendingEvidence_loop q ?it [] [] = (h, t, b, m)"
    by (cases "batchExpiredPendingEvidence_loop q ?it [] []") auto
  have be: "batchExpiredPendingEvidence q [] = (h, t, b, m)"
    using nf l by (simp add: batchExpiredPendingEvidence_def IteratePrefix_def no_fault_def
        pending_entries_def)
  have srt: "sorted (map key_order (map fst ?it))"
    unfolding pending_entries_def by (rule sorted_prefix_entries)
  note del = batchExpiredPendingEvidence_loop_deletes [OF l nf srt pre]
  show ?thesis
  proof (cases "map_of (db_data (evidenceStore q)) (keyPending e)")
    case None
    then show ?thesis
      using nf
      by (auto simp: removeExpiredPendingEvidence_def be batch_WriteSync_def no_fault_def
          removeEvidenceFromList_def Let_def map_of_delete_keys pending_entries_def
          prefix_entries_delete_keys)
  next
    case (Some v)
    then have mem: "(keyPending e, v) \<in> set ?it"
      by (simp add: pending_entries_def prefix_entries_mem keyPending_def)
    have le: "key_order (fst (keyPending e, v)) \<le> key_order (keyPending e)"
      by simp
    have "fst (keyPending e, v) \<in> set b"
      using del mem le by blast
    moreover have "m \<noteq> []"
      using del mem le by blast
    ultimately have "keyPending e \<in> set b" "m \<noteq> []"
      by simp_all
    then show ?thesis
      using nf
      by (auto simp: removeExpiredPendingEvidence_def be batch_WriteSync_def no_fault_def
          removeEvidenceFromList_def Let_def map_of_delete_keys pending_entries_def
          prefix_entries_delete_keys)
  qed
qed

lemma markEvidenceAsCommitted_keeps:
  "db_fail (evidenceStore (markEvidenceAsCommitted evpool evs h)) = db_fail (evidenceStore evpool) \<and>
   state (markEvidenceAsCommitted evpool evs h) = state evpool \<and>
   pruningHeight (markEvidenceAsCommitted evpool evs h) = pruningHeight evpool \<and>
   pruningTime (markEvidenceAsCommitted evpool evs h) = pruningTime evpool"
proof -
  obtain b m p where l: "markEvidenceAsCommitted_loop h evs [] [] evpool = (b, m, p)"
    by (cases "markEvidenceAsCommitted_loop h evs [] [] evpool")
  note k = markEvidenceAsCommitted_loop_keeps [OF l]
  show ?thesis
    using k
    by (simp add: markEvidenceAsCommitted_def l batch_WriteSync_def removeEvidenceFromList_def
        Let_def)
qed

lemma isPending_pending_entries:
  "isPending q e \<longleftrightarrow>
     \<not> db_fail (evidenceStore q) (OpHas (keyPending e)) \<and>
     keyPending e \<in> fst ` set (pending_entries q)"
proof -
  have "map_of (db_data (evidenceStore q)) (keyPending e) \<noteq> None \<longleftrightarrow>
        keyPending e \<in> fst ` set (pending_entries q)"
  proof
    assume "map_of (db_data (evidenceStore q)) (keyPending e) \<noteq> None"
    then obtain v where "map_of (db_data (evidenceStore q)) (keyPending e) = Some v"
      by blast
    then have "(keyPending e, v) \<in> set (pending_entries q)"
      by (simp add: pending_entries_def prefix_entries_mem keyPending_def)
    then show "keyPending e \<in> fst ` set (pending_entries q)"
      by force
  next
    assume "keyPending e \<in> fst ` set (pending_entries q)"
    then obtain v where "(keyPending e, v) \<in> set (pending_entries q)"
      by force
    then show "map_of (db_data (evidenceStore q)) (keyPending e) \<noteq> None"
      by (simp add: pending_entries_def prefix_entries_mem)
  qed
  then show ?thesis
    by (simp add: isPending_def db_Has_def)
qed

lemma markEvidenceAsCommitted_isPending:
  assumes "keyPending e \<notin> keyPending ` set evs"
  shows "isPending (markEvidenceAsCommitted q evs h) e = isPending q e"
proof -
  obtain b m p where l: "markEvidenceAsCommitted_loop h evs [] [] q = (b, m, p)"
    by (cases "markEvidenceAsCommitted_loop h evs [] [] q")
  note k = markEvidenceAsCommitted_loop_keeps [OF l]
  note mp = markEvidenceAsCommitted_loop_maps [OF l]
  have nb: "keyPending e \<notin> set b"
    using mp assms by auto
  have p: "isPending p e = isPending q e"
    using k by (simp add: isPending_pending_entries)
  show ?thesis
  proof (cases "m = [] \<or> db_fail (evidenceStore p) OpWriteSync")
    case True
    then have "markEvidenceAsCommitted q evs h = p"
      by (auto simp: markEvidenceAsCommitted_def l batch_WriteSync_def)
    then show ?thesis using p by simp
  next
    case False
    let ?p' = "markEvidenceAsCommitted q evs h"
    have res: "?p' = (removeEvidenceFromList
                   (p\<lparr>evidenceStore :=
                        (evidenceStore p)\<lparr>db_data := delete_keys b (db_data (evidenceStore p))\<rparr>\<rparr>) m)
                 \<lparr>evidenceSize := subSize (evidenceSize p) (length m)\<rparr>"
      using False
      by (simp add: markEvidenceAsCommitted_def l batch_WriteSync_def Let_def
          removeEvidenceFromList_def)
    have pe: "pending_entries ?p' = filter (\<lambda>kv. fst kv \<notin> set b) (pending_entries p)"
      unfolding res
      by (simp add: pending_entries_def removeEvidenceFromList_def prefix_entries_delete_keys)
    have fl: "db_fail (evidenceStore ?p') = db_fail (evidenceStore p)"
      unfolding res by (simp add: removeEvidenceFromList_def)
    have "keyPending e \<in> fst ` set (pending_entries ?p') \<longleftrightarrow>
          keyPending e \<in> fst ` set (pending_entries p)"
      unfolding pe using nb by force
    then have "isPending ?p' e = isPending p e"
      by (simp add: isPending_pending_entries fl)
    then show ?thesis using p by simp
  qed
qed

lemma reconciled_keeps:
  assumes "reconciled enc evpool st ev = Inr q"
  shows "db_fail (evidenceStore q) = db_fail (evidenceStore evpool) \<and>
         state q = st \<and>
         pruningHeight q = pruningHeight evpool \<and>
         pruningTime q = pruningTime evpool"
proof -
  from assms obtain p0 where
    p0: "processConsensusBuffer_loop enc st evpool (consensusBuffer evpool) = Inr p0"
    and q: "q = markEvidenceAsCommitted (updateState (p0\<lparr>consensusBuffer := []\<rparr>) st) ev
               (LastBlockHeight st)"
    by (auto simp: reconciled_def processConsensusBuffer_def split: sum.splits)
  note k = processConsensusBuffer_loop_keeps [OF p0, of undefined]
  show ?thesis
    using k unfolding q by (simp add: markEvidenceAsCommitted_keeps updateState_def)
qed

lemma reconciled_isPending:
  assumes rec: "reconciled enc evpool st ev = Inr q"
    and "isPending evpool e" "keyPending e \<notin> keyPending ` set ev"
  shows "isPending q e"
proof -
  from rec obtain p0 where
    p0: "processConsensusBuffer_loop enc st evpool (consensusBuffer evpool) = Inr p0"
    and q: "q = markEvidenceAsCommitted (updateState (p0\<lparr>consensusBuffer := []\<rparr>) st) ev
               (LastBlockHeight st)"
    by (auto simp: reconciled_def processConsensusBuffer_def split: sum.splits)
  note k = processConsensusBuffer_loop_keeps [OF p0, of "keyPending e"]
  have "isPending (updateState (p0\<lparr>consensusBuffer := []\<rparr>) st) e"
    using k assms(2)
    by (auto simp: isPending_def db_Has_def updateState_def split: if_splits)
  then show ?thesis
    unfolding q using markEvidenceAsCommitted_isPending [OF assms(3)] by simp
qed

lemma reconciled_exists:
  assumes "\<forall>vs\<in>set (consensusBuffer evpool). \<not> nil_dereference enc evpool st vs"
  shows "\<exists>q. reconciled enc evpool st ev = Inr q"
proof -
  have "\<not> isl (processConsensusBuffer_loop enc st evpool (consensusBuffer evpool))"
    using assms by (simp add: isl_processConsensusBuffer_loop)
  then obtain p0 where
    "processConsensusBuffer_loop enc st evpool (consensusBuffer evpool) = Inr p0"
    by (cases "processConsensusBuffer_loop enc st evpool (consensusBuffer evpool)") simp_all
  then show ?thesis
    by (simp add: reconciled_def processConsensusBuffer_def)
qed

lemma Update_reconciled:
  assumes inc: "LastBlockHeight (state evpool) <s LastBlockHeight st"
    and rec: "reconciled enc evpool st ev = Inr q"
  shows "Update enc evpool st ev =
     (if pruning_due q st
      then Inr ((snd (removeExpiredPendingEvidence q))
                  \<lparr>pruningHeight := fst (fst (removeExpiredPendingEvidence q)),
                   pruningTime := snd (fst (removeExpiredPendingEvidence q))\<rparr>)
      else Inr q)"
proof -
  have "\<not> LastBlockHeight st \<le>s LastBlockHeight (state evpool)"
    using inc by (simp add: signed.not_le)
  then show ?thesis
    using rec
    by (auto simp: Update_def reconciled_def pruning_due_def Let_def
        split: sum.splits prod.splits)
qed

lemma listEvidence_loop_subset:
  "set (fst (listEvidence_loop maxBytes it evList sofar tot)) \<subseteq>
     set sofar \<union> set (decode_entries it)"
proof (induction it arbitrary: evList sofar tot)
  case Nil
  then show ?case by simp
next
  case (Cons kv it)
  show ?case
  proof (cases "Evidence_Unmarshal (snd kv)")
    case None
    then show ?thesis by simp
  next
    case (Some evpb)
    show ?thesis
    proof (cases "EvidenceFromProto evpb")
      case None
      then show ?thesis using Some by (simp add: Let_def)
    next
      case (Some x)
      then have "bytesToEv (snd kv) = Some x"
        using \<open>Evidence_Unmarshal (snd kv) = Some evpb\<close> by (simp add: bytesToEv_def)
      then show ?thesis
        using Cons.IH [of "evList @ [evpb]" "sofar @ [x]"
            "tmproto_EvidenceList_Size (evList @ [evpb])"]
          Some \<open>Evidence_Unmarshal (snd kv) = Some evpb\<close>
        by (auto simp: Let_def decode_entries_Cons)
    qed
  qed
qed

lemma PendingEvidence_subset:
  "set (fst (PendingEvidence evpool maxBytes)) \<subseteq> set (pending_evidence evpool)"
proof -
  have "set (fst (listEvidence evpool prefixPending maxBytes)) \<subseteq> set (pending_evidence evpool)"
    using listEvidence_loop_subset [of maxBytes "pending_entries evpool" "[]" "[]" 0]
    by (simp add: listEvidence_def IteratePrefix_def pending_evidence_def pending_entries_def)
  then show ?thesis
    by (auto simp: PendingEvidence_def split: prod.splits)
qed

lemma set_decode_entries:
  "x \<in> set (decode_entries it) \<longleftrightarrow> (\<exists>kv\<in>set it. bytesToEv (snd kv) = Some x)"
  by (induction it) (auto simp: decode_entries_Cons split: option.splits)

text \<open>
  C2 (as amended). With a store that performs its operations, a height that grows and a
  buffer of pairs at which nothing is \<^verbatim>\<open>nil\<close>, let \<open>q\<close> be the pool after the buffer is
  flushed, the state replaced and the block's evidence marked as committed. When the
  pruning pass is due (\<open>q\<close> is not empty, the new height is above the pruning height and the
  new time after the pruning time) and every pending entry of \<open>q\<close> up to the key of \<open>e\<close> is
  expired under the new state, \<open>Update\<close> returns a pool in which \<open>e\<close> is not pending; and
  when every pending value is stored under its own key, no call of \<open>PendingEvidence\<close> on
  that pool returns \<open>e\<close>. When the pruning pass is not due, \<open>Update\<close> returns \<open>q\<close>. An item
  that was pending before and whose key is not the key of an item of the block is pending
  in \<open>q\<close>.
\<close>

theorem Update_prunes_expired_prefix:
  assumes nf: "db_fail (evidenceStore evpool) = no_fault"
    and inc: "LastBlockHeight (state evpool) <s LastBlockHeight st"
    and nonil: "\<forall>vs\<in>set (consensusBuffer evpool). \<not> nil_dereference enc evpool st vs"
  shows "\<exists>q. reconciled enc evpool st ev = Inr q \<and>
    (pruning_due q st \<and>
     (\<forall>kv\<in>set (pending_entries q).
        key_order (fst kv) \<le> key_order (keyPending e) \<longrightarrow> expired_entry q kv) \<longrightarrow>
       (\<exists>p. Update enc evpool st ev = Inr p \<and> \<not> isPending p e \<and>
            keyPending e \<notin> fst ` set (pending_entries p) \<and>
            (list_all stored_under_own_key (pending_entries q) \<longrightarrow>
               (\<forall>maxBytes. e \<notin> set (fst (PendingEvidence p maxBytes)))))) \<and>
    (\<not> pruning_due q st \<longrightarrow> Update enc evpool st ev = Inr q) \<and>
    (isPending evpool e \<and> keyPending e \<notin> keyPending ` set ev \<longrightarrow> isPending q e)"
proof -
  obtain q where rec: "reconciled enc evpool st ev = Inr q"
    using reconciled_exists [OF nonil] by blast
  note k = reconciled_keeps [OF rec]
  note upd = Update_reconciled [OF inc rec]
  have nfq: "db_fail (evidenceStore q) = no_fault"
    using k nf by simp
  have A: "\<exists>p. Update enc evpool st ev = Inr p \<and> \<not> isPending p e \<and>
            keyPending e \<notin> fst ` set (pending_entries p) \<and>
            (list_all stored_under_own_key (pending_entries q) \<longrightarrow>
               (\<forall>maxBytes. e \<notin> set (fst (PendingEvidence p maxBytes))))"
    if due: "pruning_due q st"
      and pre: "\<forall>kv\<in>set (pending_entries q).
        key_order (fst kv) \<le> key_order (keyPending e) \<longrightarrow> expired_entry q kv"
  proof -
    let ?p4 = "snd (removeExpiredPendingEvidence q)"
    let ?p = "?p4\<lparr>pruningHeight := fst (fst (removeExpiredPendingEvidence q)),
                   pruningTime := snd (fst (removeExpiredPendingEvidence q))\<rparr>"
    have u: "Update enc evpool st ev = Inr ?p"
      using upd due by simp
    from removeExpiredPendingEvidence_removes [OF nfq pre]
    have p4: "map_of (db_data (evidenceStore ?p4)) (keyPending e) = None"
      "db_fail (evidenceStore ?p4) = no_fault"
      "set (pending_entries ?p4) \<subseteq> set (pending_entries q)"
      by simp_all
    have pe: "pending_entries ?p = pending_entries ?p4"
      by (simp add: pending_entries_def)
    have a: "\<not> isPending ?p e"
      using p4(1,2) by (simp add: isPending_def db_Has_def no_fault_def)
    have b: "keyPending e \<notin> fst ` set (pending_entries ?p)"
    proof
      assume "keyPending e \<in> fst ` set (pending_entries ?p)"
      then obtain v where "(keyPending e, v) \<in> set (pending_entries ?p4)"
        unfolding pe by force
      then show False
        using p4(1) by (simp add: pending_entries_def prefix_entries_mem)
    qed
    have c: "e \<notin> set (fst (PendingEvidence ?p maxBytes))"
      if own: "list_all stored_under_own_key (pending_entries q)" for maxBytes
    proof
      assume "e \<in> set (fst (PendingEvidence ?p maxBytes))"
      then have "e \<in> set (pending_evidence ?p)"
        using PendingEvidence_subset by blast
      then obtain kv where kv: "kv \<in> set (pending_entries ?p4)" "bytesToEv (snd kv) = Some e"
        by (auto simp: pending_evidence_def pe set_decode_entries)
      then have "stored_under_own_key kv"
        using own p4(3) by (auto simp: list_all_iff)
      then have "keyPending e = fst kv"
        using kv(2) by (simp add: stored_under_own_key_def)
      then have "keyPending e \<in> fst ` set (pending_entries ?p)"
        using kv(1) unfolding pe by force
      then show False using b by simp
    qed
    show ?thesis
      using u a b c by blast
  qed
  have B: "Update enc evpool st ev = Inr q" if "\<not> pruning_due q st"
    using upd that by simp
  have C: "isPending q e" if "isPending evpool e" "keyPending e \<notin> keyPending ` set ev"
    using reconciled_isPending [OF rec that] .
  show ?thesis
    using rec A B C by blast
qed

lemma Update_ex_expired:
  "Update ex_enc ex_expired (ex_state 11 11000000000) [] =
     Inr ((ex_pool [] [] (ex_state 11 11000000000))
            \<lparr>pruningHeight := 11, pruningTime := 11000000000\<rparr>)"
  by (simp add: ex_expired_def pool_eval)

theorem Update_prunes_expired_prefix_witness:
  "reconciled ex_enc ex_expired (ex_state 11 11000000000) [] =
     Inr (ex_expired\<lparr>state := ex_state 11 11000000000\<rparr>) \<and>
   pruning_due (ex_expired\<lparr>state := ex_state 11 11000000000\<rparr>) (ex_state 11 11000000000) \<and>
   expired_entry (ex_expired\<lparr>state := ex_state 11 11000000000\<rparr>)
     (keyPending (ex_evidence 5 0 [1] 10), EvidenceBytes (ex_evidence 5 0 [1] 10)) \<and>
   Update ex_enc ex_expired (ex_state 11 11000000000) [] =
     Inr ((ex_pool [] [] (ex_state 11 11000000000))
            \<lparr>pruningHeight := 11, pruningTime := 11000000000\<rparr>) \<and>
   isPending ex_expired (ex_evidence 5 0 [1] 10) \<and>
   \<not> isPending ((ex_pool [] [] (ex_state 11 11000000000))
            \<lparr>pruningHeight := 11, pruningTime := 11000000000\<rparr>) (ex_evidence 5 0 [1] 10) \<and>
   Size ((ex_pool [] [] (ex_state 11 11000000000))
            \<lparr>pruningHeight := 11, pruningTime := 11000000000\<rparr>) = 0 \<and>
   fst (PendingEvidence ((ex_pool [] [] (ex_state 11 11000000000))
            \<lparr>pruningHeight := 11, pruningTime := 11000000000\<rparr>) (- 1)) = [] \<and>
   isPending ex_waiting (ex_evidence 94 0 [1] 10) \<and>
   isExpired (ex_waiting\<lparr>state := ex_state 100 10200000000\<rparr>) 94 0 \<and>
   \<not> pruning_due (ex_waiting\<lparr>state := ex_state 100 10200000000\<rparr>) (ex_state 100 10200000000) \<and>
   Update ex_enc ex_waiting (ex_state 100 10200000000) [] =
     Inr (ex_waiting\<lparr>state := ex_state 100 10200000000\<rparr>) \<and>
   isPending (ex_waiting\<lparr>state := ex_state 100 10200000000\<rparr>) (ex_evidence 94 0 [1] 10)"
proof -
  have waiting: "\<exists>q. reconciled ex_enc ex_waiting (ex_state 100 10200000000) [] = Inr q \<and>
    (pruning_due q (ex_state 100 10200000000) \<and>
     (\<forall>kv\<in>set (pending_entries q).
        key_order (fst kv) \<le> key_order (keyPending (ex_evidence 94 0 [1] 10)) \<longrightarrow>
        expired_entry q kv) \<longrightarrow>
       (\<exists>p. Update ex_enc ex_waiting (ex_state 100 10200000000) [] = Inr p \<and>
            \<not> isPending p (ex_evidence 94 0 [1] 10) \<and>
            keyPending (ex_evidence 94 0 [1] 10) \<notin> fst ` set (pending_entries p) \<and>
            (list_all stored_under_own_key (pending_entries q) \<longrightarrow>
               (\<forall>maxBytes. ex_evidence 94 0 [1] 10 \<notin> set (fst (PendingEvidence p maxBytes)))))) \<and>
    (\<not> pruning_due q (ex_state 100 10200000000) \<longrightarrow>
       Update ex_enc ex_waiting (ex_state 100 10200000000) [] = Inr q) \<and>
    (isPending ex_waiting (ex_evidence 94 0 [1] 10) \<and>
     keyPending (ex_evidence 94 0 [1] 10) \<notin> keyPending ` set [] \<longrightarrow>
       isPending q (ex_evidence 94 0 [1] 10))"
    by (rule Update_prunes_expired_prefix)
      (simp_all add: ex_waiting_def ex_expiring_def pool_eval)
  have w: "isPending ex_waiting (ex_evidence 94 0 [1] 10) \<and>
   isExpired (ex_waiting\<lparr>state := ex_state 100 10200000000\<rparr>) 94 0 \<and>
   \<not> pruning_due (ex_waiting\<lparr>state := ex_state 100 10200000000\<rparr>) (ex_state 100 10200000000) \<and>
   Update ex_enc ex_waiting (ex_state 100 10200000000) [] =
     Inr (ex_waiting\<lparr>state := ex_state 100 10200000000\<rparr>) \<and>
   isPending (ex_waiting\<lparr>state := ex_state 100 10200000000\<rparr>) (ex_evidence 94 0 [1] 10)"
    using waiting
    by (simp add: pruning_due_def ex_waiting_def ex_expiring_def pool_eval)
  have q: "reconciled ex_enc ex_expired (ex_state 11 11000000000) [] =
      Inr (ex_expired\<lparr>state := ex_state 11 11000000000\<rparr>)"
    by (simp add: reconciled_def ex_expired_def pool_eval)
  have pe: "pending_entries (ex_expired\<lparr>state := ex_state 11 11000000000\<rparr>) =
      [(keyPending (ex_evidence 5 0 [1] 10), EvidenceBytes (ex_evidence 5 0 [1] 10))]"
    by (simp add: pending_entries_def ex_expired_def pool_eval)
  have due: "pruning_due (ex_expired\<lparr>state := ex_state 11 11000000000\<rparr>)
      (ex_state 11 11000000000)"
    by (simp add: pruning_due_def ex_expired_def pool_eval)
  have ex: "expired_entry (ex_expired\<lparr>state := ex_state 11 11000000000\<rparr>)
     (keyPending (ex_evidence 5 0 [1] 10), EvidenceBytes (ex_evidence 5 0 [1] 10))"
    by (simp add: expired_entry_def ex_expired_def pool_eval)
  have "\<exists>q. reconciled ex_enc ex_expired (ex_state 11 11000000000) [] = Inr q \<and>
    (pruning_due q (ex_state 11 11000000000) \<and>
     (\<forall>kv\<in>set (pending_entries q).
        key_order (fst kv) \<le> key_order (keyPending (ex_evidence 5 0 [1] 10)) \<longrightarrow>
        expired_entry q kv) \<longrightarrow>
       (\<exists>p. Update ex_enc ex_expired (ex_state 11 11000000000) [] = Inr p \<and>
            \<not> isPending p (ex_evidence 5 0 [1] 10) \<and>
            keyPending (ex_evidence 5 0 [1] 10) \<notin> fst ` set (pending_entries p) \<and>
            (list_all stored_under_own_key (pending_entries q) \<longrightarrow>
               (\<forall>maxBytes. ex_evidence 5 0 [1] 10 \<notin> set (fst (PendingEvidence p maxBytes)))))) \<and>
    (\<not> pruning_due q (ex_state 11 11000000000) \<longrightarrow>
       Update ex_enc ex_expired (ex_state 11 11000000000) [] = Inr q) \<and>
    (isPending ex_expired (ex_evidence 5 0 [1] 10) \<and>
     keyPending (ex_evidence 5 0 [1] 10) \<notin> keyPending ` set [] \<longrightarrow>
       isPending q (ex_evidence 5 0 [1] 10))"
    by (rule Update_prunes_expired_prefix) (simp_all add: ex_expired_def pool_eval)
  then have "\<exists>p. Update ex_enc ex_expired (ex_state 11 11000000000) [] = Inr p \<and>
            \<not> isPending p (ex_evidence 5 0 [1] 10)"
    using due ex by (auto simp: q pe)
  then have "Update ex_enc ex_expired (ex_state 11 11000000000) [] =
     Inr ((ex_pool [] [] (ex_state 11 11000000000))
            \<lparr>pruningHeight := 11, pruningTime := 11000000000\<rparr>) \<and>
   isPending ex_expired (ex_evidence 5 0 [1] 10) \<and>
   \<not> isPending ((ex_pool [] [] (ex_state 11 11000000000))
            \<lparr>pruningHeight := 11, pruningTime := 11000000000\<rparr>) (ex_evidence 5 0 [1] 10) \<and>
   Size ((ex_pool [] [] (ex_state 11 11000000000))
            \<lparr>pruningHeight := 11, pruningTime := 11000000000\<rparr>) = 0 \<and>
   fst (PendingEvidence ((ex_pool [] [] (ex_state 11 11000000000))
            \<lparr>pruningHeight := 11, pruningTime := 11000000000\<rparr>) (- 1)) = []"
    by (simp add: Update_ex_expired) (simp add: ex_expired_def pool_eval)
  then show ?thesis
    using due ex q w by blast
qed

lemma Updates_ex_expiring_2:
  "Updates ex_enc ex_expiring [(ex_state 99 6000000000, []), (ex_state 100 10200000000, [])] =
     Inr (ex_expiring\<lparr>state := ex_state 100 10200000000,
            pruningHeight := 100, pruningTime := 11000000000\<rparr>)"
  by (simp add: ex_expiring_def pool_eval)

lemma Updates_ex_expiring_3:
  "Updates ex_enc ex_expiring
     [(ex_state 99 6000000000, []), (ex_state 100 10200000000, []),
      (ex_state 101 10600000000, [])] =
     Inr (ex_expiring\<lparr>state := ex_state 101 10600000000,
            pruningHeight := 100, pruningTime := 11000000000\<rparr>)"
  by (simp add: ex_expiring_def pool_eval)

text \<open>
  The claim as stated has one \<open>Update\<close> on a non-empty pool remove every item that is
  stale by height and by time. The pruning cursor gates the scan: the pass at height 99
  finds the item of height 94 fresh and moves the cursor to height 100 and time 11 s. The
  item expires with the state of height 100 and time 10.2 s; that \<open>Update\<close> does not scan,
  since 100 is not above the cursor, and the next one at height 101 and time 10.6 s does
  not either, since 10.6 s is not after 11 s. The item is still returned by
  \<open>PendingEvidence\<close>.
\<close>

theorem Update_expired_not_pruned_counterexample:
  "Updates ex_enc ex_expiring [(ex_state 99 6000000000, []), (ex_state 100 10200000000, [])] =
     Inr (ex_expiring\<lparr>state := ex_state 100 10200000000,
            pruningHeight := 100, pruningTime := 11000000000\<rparr>) \<and>
   isExpired (ex_expiring\<lparr>state := ex_state 100 10200000000,
            pruningHeight := 100, pruningTime := 11000000000\<rparr>) 94 0 \<and>
   height_stale (ex_expiring\<lparr>state := ex_state 100 10200000000,
            pruningHeight := 100, pruningTime := 11000000000\<rparr>) 94 \<and>
   time_stale (ex_expiring\<lparr>state := ex_state 100 10200000000,
            pruningHeight := 100, pruningTime := 11000000000\<rparr>) 0 \<and>
   Size (ex_expiring\<lparr>state := ex_state 100 10200000000,
            pruningHeight := 100, pruningTime := 11000000000\<rparr>) = 1 \<and>
   isPending (ex_expiring\<lparr>state := ex_state 100 10200000000,
            pruningHeight := 100, pruningTime := 11000000000\<rparr>) (ex_evidence 94 0 [1] 10) \<and>
   fst (PendingEvidence (ex_expiring\<lparr>state := ex_state 100 10200000000,
            pruningHeight := 100, pruningTime := 11000000000\<rparr>) (- 1)) =
     [ex_evidence 94 0 [1] 10] \<and>
   Updates ex_enc ex_expiring
     [(ex_state 99 6000000000, []), (ex_state 100 10200000000, []),
      (ex_state 101 10600000000, [])] =
     Inr (ex_expiring\<lparr>state := ex_state 101 10600000000,
            pruningHeight := 100, pruningTime := 11000000000\<rparr>) \<and>
   fst (PendingEvidence (ex_expiring\<lparr>state := ex_state 101 10600000000,
            pruningHeight := 100, pruningTime := 11000000000\<rparr>) (- 1)) =
     [ex_evidence 94 0 [1] 10]"
  by (simp add: Updates_ex_expiring_2 Updates_ex_expiring_3)
    (simp add: ex_expiring_def height_stale_def time_stale_def pool_eval)

end
